theory Spec2Isabelle
  imports Complex_Main "HOL-Library.AList"
begin

section \<open>JavaScript numbers\<close>

text \<open>
  Durations, averages and scores are JavaScript numbers, that is binary64 floating-point
  numbers. A number is modelled as the real number a finite double stands for, or one of
  the three special values. An addition, subtraction or division of finite numbers
  yields the exact result rounded to a double: the rounding is the parameter \<open>fl\<close> of the
  model, and nothing is assumed of it, so every statement holds for the rounding of the
  engine. Comparisons are exact. Two things are left out: the sign of zero (every divisor
  in \<open>benchmark.js\<close> is an array length, that is \<open>+0\<close> or positive), and the overflow of a
  finite result to an infinity, which takes magnitudes beyond 1.7e308.
\<close>

datatype jsnum = Num real | PosInf | NegInf | NaN

fun js_add :: "(real \<Rightarrow> real) \<Rightarrow> jsnum \<Rightarrow> jsnum \<Rightarrow> jsnum" where
  "js_add fl NaN _ = NaN"
| "js_add fl _ NaN = NaN"
| "js_add fl PosInf NegInf = NaN"
| "js_add fl NegInf PosInf = NaN"
| "js_add fl PosInf _ = PosInf"
| "js_add fl _ PosInf = PosInf"
| "js_add fl NegInf _ = NegInf"
| "js_add fl _ NegInf = NegInf"
| "js_add fl (Num a) (Num b) = Num (fl (a + b))"

fun js_neg :: "jsnum \<Rightarrow> jsnum" where
  "js_neg (Num a) = Num (- a)"
| "js_neg PosInf = NegInf"
| "js_neg NegInf = PosInf"
| "js_neg NaN = NaN"

definition js_sub :: "(real \<Rightarrow> real) \<Rightarrow> jsnum \<Rightarrow> jsnum \<Rightarrow> jsnum" where
  "js_sub fl a b = js_add fl a (js_neg b)"

text \<open>Division \<open>a / b\<close>; a zero divisor is \<open>+0\<close>.\<close>

fun js_div :: "(real \<Rightarrow> real) \<Rightarrow> jsnum \<Rightarrow> jsnum \<Rightarrow> jsnum" where
  "js_div fl NaN _ = NaN"
| "js_div fl _ NaN = NaN"
| "js_div fl (Num a) (Num b) =
     (if b \<noteq> 0 then Num (fl (a / b))
      else if a = 0 then NaN
      else if 0 < a then PosInf else NegInf)"
| "js_div fl (Num a) PosInf = Num 0"
| "js_div fl (Num a) NegInf = Num 0"
| "js_div fl PosInf (Num b) = (if 0 \<le> b then PosInf else NegInf)"
| "js_div fl NegInf (Num b) = (if 0 \<le> b then NegInf else PosInf)"
| "js_div fl PosInf _ = NaN"
| "js_div fl NegInf _ = NaN"

text \<open>The relation \<open>a < b\<close> of JavaScript: false as soon as one side is \<open>NaN\<close>.\<close>

fun js_lt :: "jsnum \<Rightarrow> jsnum \<Rightarrow> bool" where
  "js_lt NaN _ = False"
| "js_lt _ NaN = False"
| "js_lt (Num a) (Num b) = (a < b)"
| "js_lt NegInf NegInf = False"
| "js_lt NegInf _ = True"
| "js_lt _ NegInf = False"
| "js_lt PosInf _ = False"
| "js_lt _ PosInf = True"

text \<open>
  \<open>Math.min(...xs)\<close> and \<open>Math.max(...xs)\<close>: the running value starts at \<open>+Infinity\<close>
  (\<open>-Infinity\<close>), a \<open>NaN\<close> argument makes the result \<open>NaN\<close>. An engine throws a
  \<open>RangeError\<close> when the spread array has more elements than one call can take as
  arguments (of the order of 100000 in V8). The model has no such bound: it describes the
  calls whose array stays within the bound of the engine, as in \<open>run\<close>, where a phase
  gathers at most 1000 durations for a variant.
\<close>

fun js_min2 :: "jsnum \<Rightarrow> jsnum \<Rightarrow> jsnum" where
  "js_min2 NaN _ = NaN"
| "js_min2 _ NaN = NaN"
| "js_min2 lowest x = (if js_lt x lowest then x else lowest)"

fun js_max2 :: "jsnum \<Rightarrow> jsnum \<Rightarrow> jsnum" where
  "js_max2 NaN _ = NaN"
| "js_max2 _ NaN = NaN"
| "js_max2 highest x = (if js_lt highest x then x else highest)"

definition Math_min :: "jsnum list \<Rightarrow> jsnum" where
  "Math_min xs = foldl js_min2 PosInf xs"

definition Math_max :: "jsnum list \<Rightarrow> jsnum" where
  "Math_max xs = foldl js_max2 NegInf xs"

text \<open>\<open>xs.reduce((a, b) => a + b, 0)\<close>\<close>

definition reduce_add :: "(real \<Rightarrow> real) \<Rightarrow> jsnum list \<Rightarrow> jsnum" where
  "reduce_add fl xs = foldl (js_add fl) (Num 0) xs"

fun is_num :: "jsnum \<Rightarrow> bool" where
  "is_num (Num _) = True"
| "is_num _ = False"

fun the_num :: "jsnum \<Rightarrow> real" where
  "the_num (Num a) = a"
| "the_num _ = 0"

section \<open>The statistics bundle of a phase\<close>

text \<open>
  Every phase of \<open>ChatStorageBenchmark\<close> ends with the same object literal over its local
  array \<open>durations\<close> (lines 176-182, 203-209, 234-240, 265-271, 299-305 of
  \<open>benchmark.js\<close>). The fields \<open>min\<close>, \<open>max\<close> and \<open>total\<close> carry a suffix here.
\<close>

record stats =
  average :: jsnum
  min_s :: jsnum
  max_s :: jsnum
  total_s :: jsnum
  count :: nat

definition summarize :: "(real \<Rightarrow> real) \<Rightarrow> jsnum list \<Rightarrow> stats" where
  "summarize fl durations =
     \<lparr> average = js_div fl (reduce_add fl durations) (Num (real (length durations))),
       min_s = Math_min durations,
       max_s = Math_max durations,
       total_s = reduce_add fl durations,
       count = length durations \<rparr>"

section \<open>Test data\<close>

text \<open>
  A message as \<open>generateTestData\<close> builds it (lines 144-150). The fields \<open>id\<close> and \<open>type\<close>
  carry a suffix. The source stores the timestamp as the ISO-8601 rendering of a \<open>Date\<close>;
  the model keeps the time value of that \<open>Date\<close>, in milliseconds since the epoch.
\<close>

record message =
  id_m :: string
  content :: string
  sender :: string
  timestamp :: int
  type_m :: string

record chat =
  chatId :: string
  messages :: "message list"

text \<open>
  What \<open>generateTestData\<close> takes from its environment: \<open>uuidv4()\<close>, \<open>Math.random()\<close> and
  \<open>Date.now()\<close>, each given by the value of its k-th call, and the base-36 rendering
  \<open>x.toString(36)\<close> of a number.
\<close>

record env =
  uuidv4 :: "nat \<Rightarrow> string"
  Math_random :: "nat \<Rightarrow> real"
  Date_now :: "nat \<Rightarrow> int"
  toString36 :: "real \<Rightarrow> string"

text \<open>Decimal rendering of an integer, as a template literal renders an integral number.\<close>

fun show_nat :: "nat \<Rightarrow> string" where
  "show_nat n =
     (if n < 10 then [''0123456789'' ! n]
      else show_nat (n div 10) @ [''0123456789'' ! (n mod 10)])"

declare show_nat.simps [simp del]

definition show_int :: "int \<Rightarrow> string" where
  "show_int i = (if i < 0 then ''-'' @ show_nat (nat (- i)) else show_nat (nat i))"

text \<open>\<open>new Date(v)\<close> keeps the integral part of \<open>v\<close>, rounding towards zero.\<close>

definition time_clip :: "real \<Rightarrow> int" where
  "time_clip v = (if 0 \<le> v then \<lfloor>v\<rfloor> else \<lceil>v\<rceil>)"

section \<open>Storage adapters and the benchmark object\<close>

text \<open>
  The three adapters (\<open>./storage/way1-single-store\<close>, \<open>way2-two-stores\<close>,
  \<open>way3-separate-dbs\<close>) are required by \<open>benchmark.js\<close> but are not part of the sources
  at hand, so an adapter is a parameter: a state of type \<open>'st\<close> and one function for each
  method that \<open>ChatStorageBenchmark\<close> calls. The four timed methods return the result
  object of the timing wrapper, of which the benchmark reads \<open>success\<close> and \<open>duration\<close>.
  An awaited call is modelled by the value its promise resolves to; a timed method
  returns a result for a failure too and does not throw, which is what the specification
  says of the timing wrapper (section 4.2), while \<open>initialize\<close> may throw.
\<close>

datatype way = Way1 | Way2 | Way3

fun way_key :: "way \<Rightarrow> string" where
  "way_key Way1 = ''way1''"
| "way_key Way2 = ''way2''"
| "way_key Way3 = ''way3''"

record result =
  success :: bool
  duration :: jsnum

datatype error = TypeError | StorageUnavailable

record ('st, 'i) adapter =
  initialize :: "'st \<Rightarrow> error + 'st"
  addMessage :: "'st \<Rightarrow> string \<Rightarrow> message \<Rightarrow> result \<times> 'st"
  getChatMessages :: "'st \<Rightarrow> string \<Rightarrow> int \<Rightarrow> result \<times> 'st"
  editMessage :: "'st \<Rightarrow> string \<Rightarrow> string \<Rightarrow> string \<Rightarrow> result \<times> 'st"
  deleteMessage :: "'st \<Rightarrow> string \<Rightarrow> string \<Rightarrow> result \<times> 'st"
  getStats :: "'st \<Rightarrow> 'i \<times> 'st"
  close :: "'st \<Rightarrow> 'st"

text \<open>A call of a timed method with its arguments.\<close>

datatype request =
    AddMessage string message
  | GetChatMessages string int
  | EditMessage string string string
  | DeleteMessage string string

fun invoke :: "('st, 'i) adapter \<Rightarrow> request \<Rightarrow> 'st \<Rightarrow> result \<times> 'st" where
  "invoke A (AddMessage c m) st = addMessage A st c m"
| "invoke A (GetChatMessages c limit) st = getChatMessages A st c limit"
| "invoke A (EditMessage c i newContent) st = editMessage A st c i newContent"
| "invoke A (DeleteMessage c i) st = deleteMessage A st c i"

text \<open>
  The phases, each identified by the banner its function prints first, and the events of a
  run: the log is not part of the source's state, it records what the source does to its
  collaborators, in order.
\<close>

datatype phase =
    P_Initialize | P_Add | P_Read | P_Edit | P_Delete | P_ConcurrentRead
  | P_Stats | P_Report | P_Cleanup

datatype event =
    Enter phase
  | Init way
  | Invoke way request result
  | Issue way nat request
  | Settle way nat result
  | GetStats way
  | Close way

text \<open>
  The fields of a \<open>ChatStorageBenchmark\<close>: the adapters' states (\<open>this.way1\<close>, \<open>this.way2\<close>,
  \<open>this.way3\<close>), \<open>this.results\<close> (the statistics bundles by operation name and, under the
  key \<open>stats\<close>, what \<open>getStats\<close> returned), together with the log and the number of calls
  made so far to each function of the environment.
\<close>

record ('st, 'i) world =
  stores :: "way \<Rightarrow> 'st"
  results :: "way \<Rightarrow> string \<rightharpoonup> stats"
  storage_stats :: "way \<rightharpoonup> 'i"
  trace :: "event list"
  uuids_used :: nat
  randoms_used :: nat
  clock_reads :: nat

datatype 'w outcome = Done 'w | Threw error 'w | Stalled 'w

fun world_of :: "'w outcome \<Rightarrow> 'w" where
  "world_of (Done w) = w"
| "world_of (Threw e w) = w"
| "world_of (Stalled w) = w"

definition log_event :: "event \<Rightarrow> ('st, 'i) world \<Rightarrow> ('st, 'i) world" where
  "log_event e w = w\<lparr>trace := trace w @ [e]\<rparr>"

definition record_stats ::
    "(real \<Rightarrow> real) \<Rightarrow> way \<Rightarrow> string \<Rightarrow> jsnum list \<Rightarrow> ('st, 'i) world \<Rightarrow> ('st, 'i) world" where
  "record_stats fl wy key durations w =
     w\<lparr>results := (results w)(wy := (results w wy)(key \<mapsto> summarize fl durations))\<rparr>"

section \<open>The test data generator\<close>

text \<open>
  One message (the object literal of lines 144-150): its properties are evaluated in
  order, so the message takes one uuid, then three random numbers (content, sender,
  timestamp) and one reading of the clock.
\<close>

definition make_message ::
    "env \<Rightarrow> nat \<Rightarrow> nat \<Rightarrow> ('st, 'i) world \<Rightarrow> message \<times> ('st, 'i) world" where
  "make_message E i j w =
     (let u = uuids_used w; r = randoms_used w; c = clock_reads w;
          m = \<lparr> id_m = uuidv4 E u,
                content = ''Message '' @ show_nat (j + 1) @ '' in chat '' @ show_nat (i + 1)
                          @ '' - '' @ drop 7 (toString36 E (Math_random E r)),
                sender = ''user-'' @ show_int (\<lfloor>Math_random E (r + 1) * 5\<rfloor> + 1),
                timestamp = time_clip (real_of_int (Date_now E c)
                                       - Math_random E (r + 2) * 86400000),
                type_m = ''text'' \<rparr>
      in (m, w\<lparr>uuids_used := u + 1, randoms_used := r + 3, clock_reads := c + 1\<rparr>))"

text \<open>
  The counting loops \<open>for (let i = 0; i < n; i++)\<close> visit \<open>0, 1, ...\<close> below \<open>n\<close>: for an
  integer \<open>n\<close> these are the elements of \<open>[0..<nat n]\<close>, none when \<open>n\<close> is negative.
\<close>

definition push_message ::
    "env \<Rightarrow> nat \<Rightarrow> nat \<Rightarrow> message list \<times> ('st, 'i) world \<Rightarrow> message list \<times> ('st, 'i) world" where
  "push_message E i j acc =
     (let (m, w') = make_message E i j (snd acc) in (fst acc @ [m], w'))"

definition push_chat ::
    "env \<Rightarrow> int \<Rightarrow> nat \<Rightarrow> chat list \<times> ('st, 'i) world \<Rightarrow> chat list \<times> ('st, 'i) world" where
  "push_chat E messagesPerChat i acc =
     (let (chatMessages, w') = fold (push_message E i) [0..<nat messagesPerChat] ([], snd acc)
      in (fst acc @ [\<lparr> chatId = ''chat-'' @ show_nat (i + 1), messages = chatMessages \<rparr>], w'))"

definition generateTestData ::
    "env \<Rightarrow> int \<Rightarrow> int \<Rightarrow> ('st, 'i) world \<Rightarrow> chat list \<times> ('st, 'i) world" where
  "generateTestData E numChats messagesPerChat w =
     fold (push_chat E messagesPerChat) [0..<nat numChats] ([], w)"

section \<open>The sequential phases\<close>

text \<open>
  The body shared by the loops of the four sequential phases:
  \<open>const result = await store.m(...); if (result.success) durations.push(result.duration)\<close>.
\<close>

definition call ::
    "(way \<Rightarrow> ('st, 'i) adapter) \<Rightarrow> way \<Rightarrow> request
     \<Rightarrow> ('st, 'i) world \<times> jsnum list \<Rightarrow> ('st, 'i) world \<times> jsnum list" where
  "call A wy req acc =
     (let w = fst acc; durations = snd acc;
          (res, st') = invoke (A wy) req (stores w wy);
          w' = w\<lparr>stores := (stores w)(wy := st'), trace := trace w @ [Invoke wy req res]\<rparr>
      in (w', if success res then durations @ [duration res] else durations))"

definition ways :: "way list" where
  "ways = [Way1, Way2, Way3]"

definition benchmarkAddMessages ::
    "(real \<Rightarrow> real) \<Rightarrow> (way \<Rightarrow> ('st, 'i) adapter) \<Rightarrow> chat list \<Rightarrow> ('st, 'i) world \<Rightarrow> ('st, 'i) world" where
  "benchmarkAddMessages fl A testData w0 =
     fold (\<lambda>wy w.
             let (w', durations) =
                   fold (\<lambda>c. fold (\<lambda>m. call A wy (AddMessage (chatId c) m)) (messages c))
                        testData (w, [])
             in record_stats fl wy ''addMessage'' durations w')
          ways (log_event (Enter P_Add) w0)"

definition benchmarkReadMessages ::
    "(real \<Rightarrow> real) \<Rightarrow> (way \<Rightarrow> ('st, 'i) adapter) \<Rightarrow> chat list \<Rightarrow> ('st, 'i) world \<Rightarrow> ('st, 'i) world" where
  "benchmarkReadMessages fl A testData w0 =
     fold (\<lambda>wy w.
             let (w', durations) =
                   fold (\<lambda>c. call A wy (GetChatMessages (chatId c) 60)) testData (w, [])
             in record_stats fl wy ''readMessages'' durations w')
          ways (log_event (Enter P_Read) w0)"

text \<open>Edit: \<open>for (let i = 0; i < Math.min(10, messages.length); i++)\<close>.\<close>

definition benchmarkEditMessages ::
    "(real \<Rightarrow> real) \<Rightarrow> (way \<Rightarrow> ('st, 'i) adapter) \<Rightarrow> chat list \<Rightarrow> ('st, 'i) world \<Rightarrow> ('st, 'i) world" where
  "benchmarkEditMessages fl A testData w0 =
     fold (\<lambda>wy w.
             let (w', durations) =
                   fold (\<lambda>c. fold (\<lambda>i. let message = messages c ! i
                                        in call A wy (EditMessage (chatId c) (id_m message)
                                                        (''EDITED: '' @ content message)))
                                   [0..<min 10 (length (messages c))])
                        testData (w, [])
             in record_stats fl wy ''editMessage'' durations w')
          ways (log_event (Enter P_Edit) w0)"

text \<open>
  Delete: \<open>for (let i = messages.length - 1; i >= Math.max(0, messages.length - 5); i--)\<close>.
\<close>

definition benchmarkDeleteMessages ::
    "(real \<Rightarrow> real) \<Rightarrow> (way \<Rightarrow> ('st, 'i) adapter) \<Rightarrow> chat list \<Rightarrow> ('st, 'i) world \<Rightarrow> ('st, 'i) world" where
  "benchmarkDeleteMessages fl A testData w0 =
     fold (\<lambda>wy w.
             let (w', durations) =
                   fold (\<lambda>c. fold (\<lambda>i. let message = messages c ! i
                                        in call A wy (DeleteMessage (chatId c) (id_m message)))
                                   (rev [nat (max 0 (int (length (messages c)) - 5))
                                         ..<length (messages c)]))
                        testData (w, [])
             in record_stats fl wy ''deleteMessage'' durations w')
          ways (log_event (Enter P_Delete) w0)"

section \<open>The concurrent-read phase\<close>

text \<open>
  The loop of lines 286-295 calls \<open>store.getChatMessages(chatId, 60)\<close> for each user
  without awaiting, and attaches to each returned promise a callback that pushes the
  duration of a successful result. A promise is modelled by the result it resolves to.
  With an empty \<open>testData\<close> the index \<open>i % testData.length\<close> is \<open>NaN\<close>, the element is
  \<open>undefined\<close> and reading its \<open>chatId\<close> throws a \<open>TypeError\<close>.
\<close>

definition issue ::
    "(way \<Rightarrow> ('st, 'i) adapter) \<Rightarrow> way \<Rightarrow> chat list \<Rightarrow> nat
     \<Rightarrow> ('st, 'i) world \<times> result list \<Rightarrow> ('st, 'i) world \<times> result list" where
  "issue A wy testData i acc =
     (let w = fst acc; promises = snd acc;
          c = chatId (testData ! (i mod length testData));
          (res, st') = getChatMessages (A wy) (stores w wy) c 60;
          w' = w\<lparr>stores := (stores w)(wy := st'),
                 trace := trace w @ [Issue wy i (GetChatMessages c 60)]\<rparr>
      in (w', promises @ [res]))"

text \<open>
  \<open>await Promise.all(promises)\<close> hands control to the event loop, which settles the pending
  promises in an order of its own: \<open>sched\<close> lists the indices of the requests in the order
  in which they complete. Settling request \<open>k\<close> runs its callback. The await resumes when
  every promise has settled; if the event loop never settles one of them, it never resumes.
\<close>

definition settle ::
    "way \<Rightarrow> result list \<Rightarrow> nat
     \<Rightarrow> ('st, 'i) world \<times> jsnum list \<times> nat list
     \<Rightarrow> ('st, 'i) world \<times> jsnum list \<times> nat list" where
  "settle wy promises k acc =
     (let w = fst acc; durations = fst (snd acc); settled = snd (snd acc)
      in if k < length promises \<and> k \<notin> set settled
         then let res = promises ! k
              in (log_event (Settle wy k res) w,
                  if success res then durations @ [duration res] else durations,
                  settled @ [k])
         else acc)"

definition await_all ::
    "way \<Rightarrow> result list \<Rightarrow> nat list \<Rightarrow> ('st, 'i) world
     \<Rightarrow> ('st, 'i) world \<times> jsnum list \<times> nat list" where
  "await_all wy promises completions w = fold (settle wy promises) completions (w, [], [])"

definition concurrentReads_way ::
    "(real \<Rightarrow> real) \<Rightarrow> (way \<Rightarrow> ('st, 'i) adapter) \<Rightarrow> (way \<Rightarrow> nat list) \<Rightarrow> chat list \<Rightarrow> int \<Rightarrow> way
     \<Rightarrow> ('st, 'i) world \<Rightarrow> ('st, 'i) world outcome" where
  "concurrentReads_way fl A sched testData concurrentUsers wy w =
     (if 0 < concurrentUsers \<and> testData = [] then Threw TypeError w
      else let (w1, promises) = fold (issue A wy testData) [0..<nat concurrentUsers] (w, []);
               (w2, durations, settled) = await_all wy promises (sched wy) w1
           in if list_all (\<lambda>i. i \<in> set settled) [0..<length promises]
              then Done (record_stats fl wy ''concurrentReads'' durations w2)
              else Stalled w2)"

text \<open>A \<open>for\<close> loop over the variants whose body may throw or never resume.\<close>

fun for_each :: "('a \<Rightarrow> 'w \<Rightarrow> 'w outcome) \<Rightarrow> 'a list \<Rightarrow> 'w \<Rightarrow> 'w outcome" where
  "for_each body [] w = Done w"
| "for_each body (x # xs) w =
     (case body x w of Done w' \<Rightarrow> for_each body xs w' | stopped \<Rightarrow> stopped)"

definition benchmarkConcurrentReads ::
    "(real \<Rightarrow> real) \<Rightarrow> (way \<Rightarrow> ('st, 'i) adapter) \<Rightarrow> (way \<Rightarrow> nat list) \<Rightarrow> chat list \<Rightarrow> int
     \<Rightarrow> ('st, 'i) world \<Rightarrow> ('st, 'i) world outcome" where
  "benchmarkConcurrentReads fl A sched testData concurrentUsers w0 =
     for_each (concurrentReads_way fl A sched testData concurrentUsers) ways
              (log_event (Enter P_ConcurrentRead) w0)"

section \<open>Storage statistics\<close>

definition getStorageStats ::
    "(way \<Rightarrow> ('st, 'i) adapter) \<Rightarrow> ('st, 'i) world \<Rightarrow> ('st, 'i) world" where
  "getStorageStats A w0 =
     fold (\<lambda>wy w.
             let (s, st') = getStats (A wy) (stores w wy)
             in w\<lparr>stores := (stores w)(wy := st'),
                  storage_stats := (storage_stats w)(wy \<mapsto> s),
                  trace := trace w @ [GetStats wy]\<rparr>)
          ways (log_event (Enter P_Stats) w0)"

section \<open>The report\<close>

text \<open>
  \<open>Array.prototype.sort(compare)\<close>. ECMAScript takes a \<open>NaN\<close> returned by the comparator for
  \<open>+0\<close> and requires the sort to be stable, so for a consistent comparator the result is
  the one a stable insertion sort gives. For an inconsistent comparator (here: an average
  that is \<open>NaN\<close>) the standard leaves the order to the implementation; the model then
  gives the order of this insertion sort. On the arrays of three elements with a \<open>NaN\<close> in
  the middle that are considered below, every comparison involves the \<open>NaN\<close>, and a sort
  that moves an element only when a comparison is not zero, as the binary insertion sort
  of V8 does on short arrays, leaves the array as it is.
\<close>

fun insert_sorted :: "('a \<Rightarrow> 'a \<Rightarrow> jsnum) \<Rightarrow> 'a \<Rightarrow> 'a list \<Rightarrow> 'a list" where
  "insert_sorted compare x [] = [x]"
| "insert_sorted compare x (y # ys) =
     (if js_lt (Num 0) (compare x y) then y # insert_sorted compare x ys else x # y # ys)"

definition Array_sort :: "('a \<Rightarrow> 'a \<Rightarrow> jsnum) \<Rightarrow> 'a list \<Rightarrow> 'a list" where
  "Array_sort compare xs = foldr (insert_sorted compare) xs []"

definition operations :: "string list" where
  "operations = [''addMessage'', ''readMessages'', ''editMessage'', ''deleteMessage'',
                 ''concurrentReads'']"

text \<open>A line of the ranking: the object \<open>{way, avg, min, max}\<close> of lines 336-341.\<close>

record row =
  way_r :: way
  avg :: jsnum
  min_r :: jsnum
  max_r :: jsnum

definition report_rows :: "(way \<Rightarrow> string \<rightharpoonup> stats) \<Rightarrow> string \<Rightarrow> row list" where
  "report_rows res operation =
     concat (map (\<lambda>wy. case res wy operation of
                          None \<Rightarrow> []
                        | Some s \<Rightarrow> [\<lparr> way_r = wy, avg = average s,
                                       min_r = min_s s, max_r = max_s s \<rparr>])
                 ways)"

definition ranking :: "(real \<Rightarrow> real) \<Rightarrow> (way \<Rightarrow> string \<rightharpoonup> stats) \<Rightarrow> string \<Rightarrow> row list" where
  "ranking fl res operation =
     Array_sort (\<lambda>a b. js_sub fl (avg a) (avg b)) (report_rows res operation)"

definition toUpperCase :: "string \<Rightarrow> string" where
  "toUpperCase s =
     map (\<lambda>c. case map_of (zip ''abcdefghijklmnopqrstuvwxyz'' ''ABCDEFGHIJKLMNOPQRSTUVWXYZ'') c of
                 None \<Rightarrow> c
               | Some u \<Rightarrow> u) s"

text \<open>
  \<open>analyzeResults\<close>, lines 372-381: the winner of one operation. With no variant recorded
  for the operation, \<open>results[0]\<close> is \<open>undefined\<close> and reading \<open>.way\<close> throws.
\<close>

definition op_winner :: "(real \<Rightarrow> real) \<Rightarrow> (way \<Rightarrow> string \<rightharpoonup> stats) \<Rightarrow> string \<Rightarrow> error + way" where
  "op_winner fl res op =
     (let rs = concat (map (\<lambda>wy. case res wy op of
                                    None \<Rightarrow> []
                                  | Some s \<Rightarrow> [(wy, average s)])
                           ways)
      in case Array_sort (\<lambda>a b. js_sub fl (snd a) (snd b)) rs of
           [] \<Rightarrow> Inl TypeError
         | r # _ \<Rightarrow> Inr (fst r))"

fun winners_of :: "(real \<Rightarrow> real) \<Rightarrow> (way \<Rightarrow> string \<rightharpoonup> stats) \<Rightarrow> string list \<Rightarrow> error + (string \<times> way) list" where
  "winners_of fl res [] = Inr []"
| "winners_of fl res (op # ops) =
     (case op_winner fl res op of
        Inl e \<Rightarrow> Inl e
      | Inr wy \<Rightarrow> (case winners_of fl res ops of
                     Inl e \<Rightarrow> Inl e
                   | Inr ws \<Rightarrow> Inr ((op, wy) # ws)))"

text \<open>Lines 383-393: the score of a variant, and lines 384-395: the overall winner.\<close>

definition score :: "(real \<Rightarrow> real) \<Rightarrow> (way \<Rightarrow> string \<rightharpoonup> stats) \<Rightarrow> way \<Rightarrow> jsnum" where
  "score fl res wy =
     foldl (\<lambda>sc op. case res wy op of None \<Rightarrow> sc | Some s \<Rightarrow> js_add fl sc (average s))
           (Num 0) operations"

definition overallScores :: "(real \<Rightarrow> real) \<Rightarrow> (way \<Rightarrow> string \<rightharpoonup> stats) \<Rightarrow> (way \<times> jsnum) list" where
  "overallScores fl res = map (\<lambda>wy. (wy, score fl res wy)) ways"

definition overallWinner :: "(real \<Rightarrow> real) \<Rightarrow> (way \<Rightarrow> string \<rightharpoonup> stats) \<Rightarrow> error + way" where
  "overallWinner fl res =
     (case Array_sort (\<lambda>a b. js_sub fl (snd a) (snd b)) (overallScores fl res) of
        [] \<Rightarrow> Inl TypeError
      | e # _ \<Rightarrow> Inr (fst e))"

definition winner_name :: "(string \<times> way) list \<Rightarrow> string \<Rightarrow> error + string" where
  "winner_name winners op =
     (case map_of winners op of
        None \<Rightarrow> Inl TypeError
      | Some wy \<Rightarrow> Inr (toUpperCase (way_key wy)))"

definition analyzeResults :: "(real \<Rightarrow> real) \<Rightarrow> (way \<Rightarrow> string \<rightharpoonup> stats) \<Rightarrow> error + string list" where
  "analyzeResults fl res =
     (case winners_of fl res operations of
        Inl e \<Rightarrow> Inl e
      | Inr winners \<Rightarrow>
          (case overallWinner fl res of
             Inl e \<Rightarrow> Inl e
           | Inr ow \<Rightarrow>
               (case (winner_name winners ''readMessages'', winner_name winners ''addMessage'',
                      winner_name winners ''concurrentReads'') of
                  (Inr rd, Inr ad, Inr cr) \<Rightarrow>
                    Inr [''Overall Best Performance: '' @ toUpperCase (way_key ow)
                           @ '' - Best for general use cases'',
                         ''Best for Reading Messages: '' @ rd @ '' - Fastest chat loading'',
                         ''Best for Adding Messages: '' @ ad @ '' - Fastest message creation'',
                         ''Best for Concurrent Access: '' @ cr
                           @ '' - Best for high-traffic scenarios'']
                | _ \<Rightarrow> Inl TypeError)))"

text \<open>
  \<open>generateReport\<close> prints, for each operation, the ranked rows, and then the
  recommendations; the model returns what is printed, without the number formatting.
\<close>

record report =
  rankings :: "(string \<times> row list) list"
  recommendations :: "error + string list"

definition generateReport :: "(real \<Rightarrow> real) \<Rightarrow> (way \<Rightarrow> string \<rightharpoonup> stats) \<Rightarrow> report" where
  "generateReport fl res =
     \<lparr> rankings = map (\<lambda>operation. (operation, ranking fl res operation)) operations,
       recommendations = analyzeResults fl res \<rparr>"

section \<open>The full run\<close>

text \<open>
  \<open>runFullBenchmark\<close> (lines 405-420); \<open>benchmarkConcurrentReads\<close> is called without its
  second argument, which then has its default value 50. The value returned to the caller
  is \<open>results\<close> of the final state.
\<close>

definition runFullBenchmark ::
    "(real \<Rightarrow> real) \<Rightarrow> (way \<Rightarrow> ('st, 'i) adapter) \<Rightarrow> env \<Rightarrow> (way \<Rightarrow> nat list) \<Rightarrow> int \<Rightarrow> int
     \<Rightarrow> ('st, 'i) world \<Rightarrow> ('st, 'i) world outcome" where
  "runFullBenchmark fl A E sched numChats messagesPerChat w =
     (let (testData, w0) = generateTestData E numChats messagesPerChat w;
          w1 = benchmarkAddMessages fl A testData w0;
          w2 = benchmarkReadMessages fl A testData w1;
          w3 = benchmarkEditMessages fl A testData w2;
          w4 = benchmarkDeleteMessages fl A testData w3
      in case benchmarkConcurrentReads fl A sched testData 50 w4 of
           Done w5 \<Rightarrow>
             (let w6 = getStorageStats A w5;
                  w7 = log_event (Enter P_Report) w6
              in case recommendations (generateReport fl (results w7)) of
                   Inl e \<Rightarrow> Threw e w7
                 | Inr _ \<Rightarrow> Done w7)
         | stopped \<Rightarrow> stopped)"

text \<open>\<open>initialize\<close> and \<open>cleanup\<close> of \<open>ChatStorageBenchmark\<close> (lines 128-134 and 422-428).\<close>

definition initialize_benchmark ::
    "(way \<Rightarrow> ('st, 'i) adapter) \<Rightarrow> ('st, 'i) world \<Rightarrow> ('st, 'i) world outcome" where
  "initialize_benchmark A w0 =
     for_each (\<lambda>wy w.
                 let w' = log_event (Init wy) w
                 in case initialize (A wy) (stores w wy) of
                      Inl e \<Rightarrow> Threw e w'
                    | Inr st' \<Rightarrow> Done (w'\<lparr>stores := (stores w')(wy := st')\<rparr>))
              ways (log_event (Enter P_Initialize) w0)"

definition cleanup ::
    "(way \<Rightarrow> ('st, 'i) adapter) \<Rightarrow> ('st, 'i) world \<Rightarrow> ('st, 'i) world" where
  "cleanup A w0 =
     fold (\<lambda>wy w. (log_event (Close wy) w)\<lparr>stores := (stores w)(wy := close (A wy) (stores w wy))\<rparr>)
          ways (log_event (Enter P_Cleanup) w0)"

text \<open>
  \<open>run\<close> (lines 435-444): \<open>try { initialize; runFullBenchmark(10, 100) } catch { log }
  finally { cleanup }\<close>. A thrown error is caught and logged, and \<open>cleanup\<close> runs in either
  case; an await that never resumes leaves the run where it stands.
\<close>

definition run ::
    "(real \<Rightarrow> real) \<Rightarrow> (way \<Rightarrow> ('st, 'i) adapter) \<Rightarrow> env \<Rightarrow> (way \<Rightarrow> nat list)
     \<Rightarrow> ('st, 'i) world \<Rightarrow> ('st, 'i) world outcome" where
  "run fl A E sched w =
     (case (case initialize_benchmark A w of
              Done w1 \<Rightarrow> runFullBenchmark fl A E sched 10 100 w1
            | stopped \<Rightarrow> stopped) of
        Done w' \<Rightarrow> Done (cleanup A w')
      | Threw e w' \<Rightarrow> Done (cleanup A w')
      | Stalled w' \<Rightarrow> Stalled w')"

section \<open>The mock of the storage engine\<close>

text \<open>
  \<open>MockIndexedDB\<close> (lines 5-107). A JavaScript \<open>Map\<close> keeps its entries in insertion order:
  it is an association list, \<open>set\<close> replacing the value of a present key in place and
  appending an absent one (\<open>AList.update\<close>), \<open>delete\<close> removing the entry (\<open>AList.delete\<close>),
  \<open>get\<close> and \<open>has\<close> looking the key up (\<open>map_of\<close>).
\<close>

datatype jsvalue = Undefined | Str string | Obj "(string \<times> jsvalue) list"

record index_info =
  keyPath_i :: jsvalue
  unique :: bool

record object_store =
  name_s :: string
  keyPath :: "string option"
  data :: "(jsvalue \<times> (string \<times> jsvalue) list) list"
  indexes :: "(string \<times> index_info) list"

record database =
  name_db :: string
  version :: int
  objectStores :: "(string \<times> object_store) list"

type_synonym mock = "(string \<times> database) list"

datatype signal = OnUpgradeNeeded | OnSuccess | OnError

text \<open>The methods of the database handle (lines 30-46), as functions on the database.\<close>

definition contains :: "database \<Rightarrow> string \<Rightarrow> bool" where
  "contains db name = (map_of (objectStores db) name \<noteq> None)"

definition createObjectStore :: "string \<Rightarrow> string option \<Rightarrow> database \<Rightarrow> database" where
  "createObjectStore name kp db =
     db\<lparr>objectStores :=
          AList.update name \<lparr> name_s = name, keyPath = kp, data = [], indexes = [] \<rparr>
                       (objectStores db)\<rparr>"

definition createIndex :: "string \<Rightarrow> jsvalue \<Rightarrow> bool \<Rightarrow> object_store \<Rightarrow> object_store" where
  "createIndex indexName kp uniq store =
     store\<lparr>indexes := AList.update indexName \<lparr> keyPath_i = kp, unique = uniq \<rparr> (indexes store)\<rparr>"

datatype engine_error = StoreNotFound string

definition objectStore :: "database \<Rightarrow> string \<Rightarrow> engine_error + object_store" where
  "objectStore db name =
     (case map_of (objectStores db) name of
        None \<Rightarrow> Inl (StoreNotFound name)
      | Some store \<Rightarrow> Inr store)"

text \<open>
  A request on an object store (lines 55-86) returns at once; its effect happens in a
  timer callback, which then calls the \<open>onsuccess\<close> handler if one is attached by then. Each
  function below is that callback: it takes the store as it is when the timer fires and
  whether a handler is attached, and returns the \<open>result\<close> of the request, the store and
  the handlers called. No request of the mock sets \<open>error\<close> or calls \<open>onerror\<close>.
\<close>

definition signalled :: "bool \<Rightarrow> signal list" where
  "signalled onsuccess = (if onsuccess then [OnSuccess] else [])"

definition get_fire ::
    "object_store \<Rightarrow> jsvalue \<Rightarrow> bool \<Rightarrow> (string \<times> jsvalue) list option \<times> signal list" where
  "get_fire store key onsuccess = (map_of (data store) key, signalled onsuccess)"

definition put_fire ::
    "object_store \<Rightarrow> (string \<times> jsvalue) list \<Rightarrow> bool \<Rightarrow> object_store \<times> signal list" where
  "put_fire store v onsuccess =
     (let prop = (case keyPath store of None \<Rightarrow> ''undefined'' | Some p \<Rightarrow> p);
          key = (case map_of v prop of None \<Rightarrow> Undefined | Some k \<Rightarrow> k)
      in (store\<lparr>data := AList.update key v (data store)\<rparr>, signalled onsuccess))"

definition delete_fire :: "object_store \<Rightarrow> jsvalue \<Rightarrow> bool \<Rightarrow> object_store \<times> signal list" where
  "delete_fire store key onsuccess =
     (store\<lparr>data := AList.delete key (data store)\<rparr>, signalled onsuccess)"

definition getAll_fire ::
    "object_store \<Rightarrow> bool \<Rightarrow> (string \<times> jsvalue) list list \<times> signal list" where
  "getAll_fire store onsuccess = (map snd (data store), signalled onsuccess)"

text \<open>
  \<open>open(dbName, version)\<close>, the timer callback of lines 19-103. The \<open>onupgradeneeded\<close>
  handler receives the database handle, through which it can change the database: it is
  a function on the database, absent when no handler is attached. After the first
  statement the database is in the map, so the lookup of line 28 finds it.
\<close>

definition open_fire ::
    "mock \<Rightarrow> string \<Rightarrow> int \<Rightarrow> (database \<Rightarrow> database) option \<Rightarrow> bool \<Rightarrow> mock \<times> signal list" where
  "open_fire databases dbName v onupgradeneeded onsuccess =
     (let dbs = (if map_of databases dbName = None
                 then AList.update dbName
                        \<lparr> name_db = dbName, version = v, objectStores = [] \<rparr> databases
                 else databases)
      in case map_of dbs dbName of
           None \<Rightarrow> (dbs, [])
         | Some db \<Rightarrow>
             (case onupgradeneeded of
                None \<Rightarrow> (dbs, signalled onsuccess)
              | Some handler \<Rightarrow>
                  (AList.update dbName (handler db) dbs,
                   OnUpgradeNeeded # signalled onsuccess)))"

section \<open>Deleting a message\<close>

text \<open>
  Modelled from the spec: the timing wrapper lives in the storage modules
  \<open>./storage/way*.js\<close>, which are missing from the sources. Section 4.2 of the
  specification: it "records start time, awaits completion, records end time, and returns
  \<open>{success: true, duration: end-start, data}\<close> on success or
  \<open>{success: false, duration, error}\<close> on failure".
\<close>

definition timing_wrapper :: "int \<Rightarrow> int \<Rightarrow> bool \<Rightarrow> result" where
  "timing_wrapper start finish ok =
     \<lparr> success = ok, duration = Num (real_of_int (finish - start)) \<rparr>"

text \<open>
  Modelled from the spec: \<open>deleteMessage\<close> of the adapters, missing from the sources with
  the storage modules. Section 4.1 of the specification: \<open>deleteMessage(chatId, messageId)\<close>
  "removes the message; no-op (not an error) if already absent". The model issues the
  engine's \<open>delete\<close> (lines 71-78 of \<open>benchmark.js\<close>) with the message identifier on the
  object store that holds the messages of the chat, between the two readings of the
  clock, and reports success when the engine calls \<open>onsuccess\<close> and not \<open>onerror\<close>.
\<close>

definition spec_deleteMessage ::
    "int \<Rightarrow> int \<Rightarrow> object_store \<Rightarrow> string \<Rightarrow> string \<Rightarrow> result \<times> object_store" where
  "spec_deleteMessage start finish store c messageId =
     (let (store', signals) = delete_fire store (Str messageId) True
      in (timing_wrapper start finish (OnSuccess \<in> set signals \<and> OnError \<notin> set signals),
          store'))"

section \<open>Observations on a run\<close>

text \<open>
  What the statements below read off the log: the events between two states, the results
  that the adapter of a variant delivered to the benchmark (to an awaited call, or to the
  callback of a concurrent read), the requests made to it, and the banners.
\<close>

definition since :: "('st, 'i) world \<Rightarrow> ('st, 'i) world \<Rightarrow> event list" where
  "since w w' = drop (length (trace w)) (trace w')"

fun event_result :: "way \<Rightarrow> event \<Rightarrow> result list" where
  "event_result wy (Invoke wy' req res) = (if wy' = wy then [res] else [])"
| "event_result wy (Settle wy' k res) = (if wy' = wy then [res] else [])"
| "event_result wy _ = []"

fun event_request :: "way \<Rightarrow> event \<Rightarrow> request list" where
  "event_request wy (Invoke wy' req res) = (if wy' = wy then [req] else [])"
| "event_request wy (Issue wy' k req) = (if wy' = wy then [req] else [])"
| "event_request wy _ = []"

fun event_phase :: "event \<Rightarrow> phase list" where
  "event_phase (Enter p) = [p]"
| "event_phase _ = []"

definition delivered :: "way \<Rightarrow> event list \<Rightarrow> result list" where
  "delivered wy evs = concat (map (event_result wy) evs)"

definition requested :: "way \<Rightarrow> event list \<Rightarrow> request list" where
  "requested wy evs = concat (map (event_request wy) evs)"

definition phases_entered :: "event list \<Rightarrow> phase list" where
  "phases_entered evs = concat (map event_phase evs)"

text \<open>
  The log cut at the banners: each phase entered, with the events up to the next banner.
\<close>

definition add_event :: "(phase \<times> event list) list \<Rightarrow> event \<Rightarrow> (phase \<times> event list) list" where
  "add_event segs e =
     (case e of
        Enter p \<Rightarrow> segs @ [(p, [])]
      | _ \<Rightarrow> (case rev segs of
                [] \<Rightarrow> []
              | (p, evs) # before \<Rightarrow> rev before @ [(p, evs @ [e])]))"

definition segments :: "event list \<Rightarrow> (phase \<times> event list) list" where
  "segments evs = foldl add_event [] evs"

text \<open>The name of the adapter method behind an event of a variant.\<close>

fun request_method :: "request \<Rightarrow> string" where
  "request_method (AddMessage _ _) = ''addMessage''"
| "request_method (GetChatMessages _ _) = ''getChatMessages''"
| "request_method (EditMessage _ _ _) = ''editMessage''"
| "request_method (DeleteMessage _ _) = ''deleteMessage''"

fun event_method :: "way \<Rightarrow> event \<Rightarrow> string list" where
  "event_method wy (Init wy') = (if wy' = wy then [''initialize''] else [])"
| "event_method wy (Invoke wy' req res) = (if wy' = wy then [request_method req] else [])"
| "event_method wy (Issue wy' k req) = (if wy' = wy then [request_method req] else [])"
| "event_method wy (GetStats wy') = (if wy' = wy then [''getStats''] else [])"
| "event_method wy (Close wy') = (if wy' = wy then [''close''] else [])"
| "event_method wy _ = []"

definition methods_called :: "way \<Rightarrow> event list \<Rightarrow> string list" where
  "methods_called wy evs = concat (map (event_method wy) evs)"

text \<open>
  The calls that the loops of each phase make on a variant, read off the loop headers:
  they depend on the test data only, not on any result.
\<close>

definition add_plan :: "chat list \<Rightarrow> request list" where
  "add_plan testData =
     concat (map (\<lambda>c. map (\<lambda>m. AddMessage (chatId c) m) (messages c)) testData)"

definition read_plan :: "chat list \<Rightarrow> request list" where
  "read_plan testData = map (\<lambda>c. GetChatMessages (chatId c) 60) testData"

definition edit_plan :: "chat list \<Rightarrow> request list" where
  "edit_plan testData =
     concat (map (\<lambda>c. map (\<lambda>i. EditMessage (chatId c) (id_m (messages c ! i))
                                   (''EDITED: '' @ content (messages c ! i)))
                          [0..<min 10 (length (messages c))])
                 testData)"

definition delete_plan :: "chat list \<Rightarrow> request list" where
  "delete_plan testData =
     concat (map (\<lambda>c. map (\<lambda>i. DeleteMessage (chatId c) (id_m (messages c ! i)))
                          (rev [length (messages c) - 5..<length (messages c)]))
                 testData)"

definition read_request :: "chat list \<Rightarrow> nat \<Rightarrow> request" where
  "read_request testData i = GetChatMessages (chatId (testData ! (i mod length testData))) 60"

definition concurrent_plan :: "chat list \<Rightarrow> int \<Rightarrow> request list" where
  "concurrent_plan testData concurrentUsers =
     map (read_request testData) [0..<nat concurrentUsers]"

text \<open>
  The events of a timed phase after its banner: no further banner, and on every variant
  the requests of the plan, in order.
\<close>

definition phase_body :: "request list \<Rightarrow> event list \<Rightarrow> bool" where
  "phase_body plan body \<longleftrightarrow>
     phases_entered body = []
     \<and> list_all (\<lambda>wy. requested wy body = plan
                       \<and> methods_called wy body = map request_method plan) ways"

text \<open>The plan of the phase that records under a given operation name.\<close>

definition phase_plan :: "chat list \<Rightarrow> int \<Rightarrow> string \<Rightarrow> request list" where
  "phase_plan testData concurrentUsers key =
     (if key = ''addMessage'' then add_plan testData
      else if key = ''readMessages'' then read_plan testData
      else if key = ''editMessage'' then edit_plan testData
      else if key = ''deleteMessage'' then delete_plan testData
      else concurrent_plan testData concurrentUsers)"

text \<open>The results of a sequence of calls on an adapter, and the state they leave.\<close>

fun replies :: "('st, 'i) adapter \<Rightarrow> request list \<Rightarrow> 'st \<Rightarrow> result list" where
  "replies A [] st = []"
| "replies A (req # reqs) st =
     fst (invoke A req st) # replies A reqs (snd (invoke A req st))"

fun final_state :: "('st, 'i) adapter \<Rightarrow> request list \<Rightarrow> 'st \<Rightarrow> 'st" where
  "final_state A [] st = st"
| "final_state A (req # reqs) st = final_state A reqs (snd (invoke A req st))"

text \<open>
  The completions of a schedule that take effect: the first occurrence of each index of a
  pending request.
\<close>

fun effective :: "nat \<Rightarrow> nat list \<Rightarrow> nat list \<Rightarrow> nat list" where
  "effective n settled [] = []"
| "effective n settled (k # ks) =
     (if k < n \<and> k \<notin> set settled then k # effective n (settled @ [k]) ks
      else effective n settled ks)"

text \<open>A schedule settles every one of \<open>n\<close> requests, each once.\<close>

definition settles_all :: "nat \<Rightarrow> nat list \<Rightarrow> bool" where
  "settles_all n ks \<longleftrightarrow> distinct ks \<and> set ks = set [0..<n]"

text \<open>
  The phase that records its statistics under a given operation name, for statements
  about every phase.
\<close>

definition timed_phase ::
    "(real \<Rightarrow> real) \<Rightarrow> (way \<Rightarrow> ('st, 'i) adapter) \<Rightarrow> (way \<Rightarrow> nat list) \<Rightarrow> chat list \<Rightarrow> int \<Rightarrow> string
     \<Rightarrow> ('st, 'i) world \<Rightarrow> ('st, 'i) world outcome" where
  "timed_phase fl A sched testData concurrentUsers key w =
     (if key = ''addMessage'' then Done (benchmarkAddMessages fl A testData w)
      else if key = ''readMessages'' then Done (benchmarkReadMessages fl A testData w)
      else if key = ''editMessage'' then Done (benchmarkEditMessages fl A testData w)
      else if key = ''deleteMessage'' then Done (benchmarkDeleteMessages fl A testData w)
      else benchmarkConcurrentReads fl A sched testData concurrentUsers w)"

text \<open>
  A result as the timing wrapper of the specification produces it from two readings of a
  clock that does not run backwards: its duration is a finite number, not negative.
\<close>

fun well_timed :: "result \<Rightarrow> bool" where
  "well_timed res = (case duration res of Num d \<Rightarrow> 0 \<le> d | _ \<Rightarrow> False)"

text \<open>The successful durations of a list of results, as real numbers.\<close>

definition successful :: "result list \<Rightarrow> real list" where
  "successful rs = map (\<lambda>res. the_num (duration res)) (filter success rs)"

text \<open>
  The sum of a list of numbers as \<open>reduce((a, b) => a + b, 0)\<close> computes it: from the
  left, each addition rounded.
\<close>

definition fl_sum :: "(real \<Rightarrow> real) \<Rightarrow> real list \<Rightarrow> real" where
  "fl_sum fl xs = foldl (\<lambda>a d. fl (a + d)) 0 xs"

text \<open>
  The results that the adapter of a variant returns in a phase: its replies to the calls
  of the plan, made in order from the state the adapter has when the phase starts; in the
  concurrent-read phase they reach the benchmark in the order in which the requests
  complete.
\<close>

definition phase_replies ::
    "(way \<Rightarrow> ('st, 'i) adapter) \<Rightarrow> (way \<Rightarrow> nat list) \<Rightarrow> chat list \<Rightarrow> int \<Rightarrow> string \<Rightarrow> way
     \<Rightarrow> ('st, 'i) world \<Rightarrow> result list" where
  "phase_replies A sched testData concurrentUsers key wy w =
     (if key = ''concurrentReads''
      then map ((!) (replies (A wy) (concurrent_plan testData concurrentUsers) (stores w wy)))
               (effective (nat concurrentUsers) [] (sched wy))
      else replies (A wy) (phase_plan testData concurrentUsers key) (stores w wy))"

text \<open>
  What one pass of the loop over the variants does in a sequential phase, in closed form:
  the calls of the plan are made in order, the log and the adapter's state follow, and
  the bundle is computed from the durations of the successful results.
\<close>

definition phase_way ::
    "(real \<Rightarrow> real) \<Rightarrow> (way \<Rightarrow> ('st, 'i) adapter) \<Rightarrow> string \<Rightarrow> request list \<Rightarrow> way
     \<Rightarrow> ('st, 'i) world \<Rightarrow> ('st, 'i) world" where
  "phase_way fl A key plan wy w =
     record_stats fl wy key (map duration (filter success (replies (A wy) plan (stores w wy))))
       (w\<lparr>stores := (stores w)(wy := final_state (A wy) plan (stores w wy)),
          trace := trace w @ map2 (Invoke wy) plan (replies (A wy) plan (stores w wy))\<rparr>)"


text \<open>
  The same for the concurrent-read phase, when every request settles: the requests are
  issued in order, then the callbacks run in the order of the completions that take
  effect.
\<close>

definition concurrent_way_done ::
    "(real \<Rightarrow> real) \<Rightarrow> (way \<Rightarrow> ('st, 'i) adapter) \<Rightarrow> (way \<Rightarrow> nat list) \<Rightarrow> chat list \<Rightarrow> int \<Rightarrow> way
     \<Rightarrow> ('st, 'i) world \<Rightarrow> ('st, 'i) world" where
  "concurrent_way_done fl A sched testData concurrentUsers wy w =
     (let plan = concurrent_plan testData concurrentUsers;
          promises = replies (A wy) plan (stores w wy);
          completions = effective (nat concurrentUsers) [] (sched wy)
      in record_stats fl wy ''concurrentReads''
           (map duration (filter success (map ((!) promises) completions)))
           (w\<lparr>stores := (stores w)(wy := final_state (A wy) plan (stores w wy)),
              trace := trace w
                       @ map (\<lambda>i. Issue wy i (read_request testData i)) [0..<nat concurrentUsers]
                       @ map (\<lambda>k. Settle wy k (promises ! k)) completions\<rparr>))"

text \<open>
  The test data of a run: what \<open>generateTestData(10, 100)\<close> returns in the state that
  \<open>initialize\<close> leaves, and the state in which the add phase starts.
\<close>

definition run_test_data ::
    "(way \<Rightarrow> ('st, 'i) adapter) \<Rightarrow> env \<Rightarrow> ('st, 'i) world \<Rightarrow> chat list" where
  "run_test_data A E w = fst (generateTestData E 10 100 (world_of (initialize_benchmark A w)))"

definition run_start ::
    "(way \<Rightarrow> ('st, 'i) adapter) \<Rightarrow> env \<Rightarrow> ('st, 'i) world \<Rightarrow> ('st, 'i) world" where
  "run_start A E w = snd (generateTestData E 10 100 (world_of (initialize_benchmark A w)))"

text \<open>
  A timed phase taken from the state \<open>u\<close> to the state \<open>u'\<close> within a run that ends in the
  state \<open>final\<close>: the phase returns; on every variant the calls made are those of the
  plan, once each and in order; the results that reach the phase are the adapter's replies
  to these calls, one for each; and the bundle found under the phase's name at the end of
  the run is computed from the durations of the successful replies.
\<close>

definition phase_run ::
    "(real \<Rightarrow> real) \<Rightarrow> (way \<Rightarrow> ('st, 'i) adapter) \<Rightarrow> (way \<Rightarrow> nat list) \<Rightarrow> chat list \<Rightarrow> string
     \<Rightarrow> ('st, 'i) world \<Rightarrow> ('st, 'i) world \<Rightarrow> ('st, 'i) world \<Rightarrow> bool" where
  "phase_run fl A sched testData key u u' final \<longleftrightarrow>
     timed_phase fl A sched testData 50 key u = Done u'
     \<and> list_all (\<lambda>wy. requested wy (since u u') = phase_plan testData 50 key
                     \<and> delivered wy (since u u') = phase_replies A sched testData 50 key wy u
                     \<and> length (phase_replies A sched testData 50 key wy u)
                         = length (phase_plan testData 50 key)
                     \<and> results final wy key =
                         Some (summarize fl (map duration (filter success
                                 (phase_replies A sched testData 50 key wy u)))))
                ways"

section \<open>Properties of generated messages\<close>

text \<open>
  The pool of senders; a message generated with a reading of the clock numbered between
  \<open>lo\<close> (included) and \<open>hi\<close> (excluded): its sender is in the pool, its type is \<open>text\<close> and
  its timestamp lies in the 24 hours (86400000 ms) before that reading; and a state whose
  adapters, results and log are those of another.
\<close>

definition senders :: "string set" where
  "senders = {''user-1'', ''user-2'', ''user-3'', ''user-4'', ''user-5''}"

definition generated :: "env \<Rightarrow> nat \<Rightarrow> nat \<Rightarrow> message \<Rightarrow> bool" where
  "generated E lo hi m \<longleftrightarrow>
     sender m \<in> senders \<and> type_m m = ''text''
     \<and> (\<exists>k \<in> {lo..<hi}.
            Date_now E k - 86400000 \<le> timestamp m \<and> timestamp m \<le> Date_now E k)"

definition untouched :: "('st, 'i) world \<Rightarrow> ('st, 'i) world \<Rightarrow> bool" where
  "untouched w w' \<longleftrightarrow>
     stores w' = stores w \<and> results w' = results w \<and> storage_stats w' = storage_stats w
     \<and> trace w' = trace w"

section \<open>A small instance\<close>

text \<open>
  An adapter, an environment and a state on which the statements are exercised. The
  adapter counts the calls it has answered: adding takes 2 ms, the k-th read takes k ms,
  an edit always fails, and a delete succeeds on every other call.
\<close>

definition demo_adapter :: "(nat, unit) adapter" where
  "demo_adapter =
     \<lparr> initialize = (\<lambda>st. Inr st),
       addMessage = (\<lambda>st c m. (\<lparr> success = True, duration = Num 2 \<rparr>, Suc st)),
       getChatMessages = (\<lambda>st c limit. (\<lparr> success = True, duration = Num (real st) \<rparr>, Suc st)),
       editMessage = (\<lambda>st c i newContent. (\<lparr> success = False, duration = Num 1 \<rparr>, Suc st)),
       deleteMessage = (\<lambda>st c i. (\<lparr> success = even st, duration = Num 3 \<rparr>, Suc st)),
       getStats = (\<lambda>st. ((), st)),
       close = (\<lambda>st. st) \<rparr>"

definition demo_data :: "chat list" where
  "demo_data =
     [\<lparr> chatId = ''chat-1'',
        messages = [\<lparr> id_m = ''a'', content = ''hello'', sender = ''user-1'',
                      timestamp = 1000, type_m = ''text'' \<rparr>,
                    \<lparr> id_m = ''b'', content = ''world'', sender = ''user-2'',
                      timestamp = 2000, type_m = ''text'' \<rparr>] \<rparr>]"

definition demo_world :: "(nat, unit) world" where
  "demo_world =
     \<lparr> stores = (\<lambda>wy. 0), results = (\<lambda>wy. Map.empty), storage_stats = Map.empty,
       trace = [], uuids_used = 0, randoms_used = 0, clock_reads = 0 \<rparr>"

definition demo_env :: env where
  "demo_env =
     \<lparr> uuidv4 = (\<lambda>k. ''id-'' @ show_nat k),
       Math_random = (\<lambda>k. 1 / 2),
       Date_now = (\<lambda>k. 1700000000000 + int k),
       toString36 = (\<lambda>x. ''0.i'') \<rparr>"

text \<open>
  The bundle that a phase records for a variant none of whose calls succeeded (the
  array of durations is empty), the bundle of a single successful call of \<open>d\<close> ms, and
  results of a run in which every call on the second variant failed while each phase
  had, on the first variant, one successful call of 5 ms and, on the third, one of 3 ms.
\<close>

definition failed_bundle :: stats where
  "failed_bundle =
     \<lparr> average = NaN, min_s = PosInf, max_s = NegInf, total_s = Num 0, count = 0 \<rparr>"

definition single_bundle :: "real \<Rightarrow> stats" where
  "single_bundle d =
     \<lparr> average = Num d, min_s = Num d, max_s = Num d, total_s = Num d, count = 1 \<rparr>"

definition nan_results :: "way \<Rightarrow> string \<rightharpoonup> stats" where
  "nan_results wy =
     (\<lambda>op. if op \<in> set operations
           then Some (case wy of Way1 \<Rightarrow> single_bundle 5
                              | Way2 \<Rightarrow> failed_bundle
                              | Way3 \<Rightarrow> single_bundle 3)
           else None)"

text \<open>An object store of the mock holding two messages, keyed by their \<open>id\<close>.\<close>

definition demo_store :: object_store where
  "demo_store =
     \<lparr> name_s = ''messages'', keyPath = Some ''id'',
       data = [(Str ''a'', [(''id'', Str ''a''), (''content'', Str ''hello'')]),
               (Str ''b'', [(''id'', Str ''b''), (''content'', Str ''world'')])],
       indexes = [] \<rparr>"

text \<open>
  The same adapter for the three variants, and a schedule on which the 50 concurrent reads
  of a variant complete in the order of their issue.
\<close>

definition demo_adapters :: "way \<Rightarrow> (nat, unit) adapter" where
  "demo_adapters wy = demo_adapter"

definition demo_schedule :: "way \<Rightarrow> nat list" where
  "demo_schedule wy = [0..<50]"

text \<open>
  The instances compute with small integers and halves, which binary64 represents
  exactly: the rounding changes none of their results.
\<close>

definition demo_fl :: "real \<Rightarrow> real" where
  "demo_fl x = x"

text \<open>
  Adapters whose \<open>addMessage\<close> returns a successful result with the duration -1, as a
  difference of two readings of a clock that was set back in between.
\<close>

definition skewed_adapters :: "way \<Rightarrow> (nat, unit) adapter" where
  "skewed_adapters wy =
     demo_adapter\<lparr>addMessage := (\<lambda>st c m. (\<lparr> success = True, duration = Num (- 1) \<rparr>, Suc st))\<rparr>"

section \<open>Arithmetic of the statistics\<close>

lemma reduce_add_num:
  "list_all is_num ds \<Longrightarrow>
     foldl (js_add fl) (Num a) ds = Num (foldl (\<lambda>a d. fl (a + d)) a (map the_num ds))"
proof (induction ds arbitrary: a)
  case Nil then show ?case by simp
next
  case (Cons d ds)
  then obtain x where "d = Num x" by (cases d) auto
  with Cons show ?case by simp
qed

lemma min_num:
  "list_all is_num ds \<Longrightarrow> foldl js_min2 (Num a) ds = Num (fold min (map the_num ds) a)"
proof (induction ds arbitrary: a)
  case Nil then show ?case by simp
next
  case (Cons d ds)
  then obtain x where "d = Num x" by (cases d) auto
  with Cons show ?case by (auto simp: min_def)
qed

lemma max_num:
  "list_all is_num ds \<Longrightarrow> foldl js_max2 (Num a) ds = Num (fold max (map the_num ds) a)"
proof (induction ds arbitrary: a)
  case Nil then show ?case by simp
next
  case (Cons d ds)
  then obtain x where "d = Num x" by (cases d) auto
  with Cons show ?case by (auto simp: max_def)
qed

lemma Math_min_num:
  assumes "list_all is_num ds" "ds \<noteq> []"
  shows "Math_min ds = Num (Min (set (map the_num ds)))"
proof -
  from assms obtain d ds' where ds: "ds = d # ds'" by (cases ds) auto
  with assms obtain x where d: "d = Num x" by (cases d) auto
  have "Math_min ds = foldl js_min2 (Num x) ds'"
    by (simp add: Math_min_def ds d)
  also have "\<dots> = Num (fold min (map the_num ds') x)"
    using assms ds by (simp add: min_num)
  also have "fold min (map the_num ds') x = Min (set (map the_num ds))"
    using Min.set_eq_fold[of x "map the_num ds'"] by (simp add: ds d)
  finally show ?thesis .
qed

lemma Math_max_num:
  assumes "list_all is_num ds" "ds \<noteq> []"
  shows "Math_max ds = Num (Max (set (map the_num ds)))"
proof -
  from assms obtain d ds' where ds: "ds = d # ds'" by (cases ds) auto
  with assms obtain x where d: "d = Num x" by (cases d) auto
  have "Math_max ds = foldl js_max2 (Num x) ds'"
    by (simp add: Math_max_def ds d)
  also have "\<dots> = Num (fold max (map the_num ds') x)"
    using assms ds by (simp add: max_num)
  also have "fold max (map the_num ds') x = Max (set (map the_num ds))"
    using Max.set_eq_fold[of x "map the_num ds'"] by (simp add: ds d)
  finally show ?thesis .
qed

lemma summarize_Nil:
  "summarize fl [] = \<lparr> average = NaN, min_s = PosInf, max_s = NegInf, total_s = Num 0, count = 0 \<rparr>"
  by (simp add: summarize_def reduce_add_def Math_min_def Math_max_def)

section \<open>The sequential phases in closed form\<close>

lemma call_eq:
  "call A wy req (w, ds) =
     (w\<lparr>stores := (stores w)(wy := snd (invoke (A wy) req (stores w wy))),
        trace := trace w @ [Invoke wy req (fst (invoke (A wy) req (stores w wy)))]\<rparr>,
      if success (fst (invoke (A wy) req (stores w wy)))
      then ds @ [duration (fst (invoke (A wy) req (stores w wy)))] else ds)"
  by (simp add: call_def split_beta Let_def)

lemma fold_call:
  "fold (call A wy) reqs (w, ds) =
     (w\<lparr>stores := (stores w)(wy := final_state (A wy) reqs (stores w wy)),
        trace := trace w @ map2 (Invoke wy) reqs (replies (A wy) reqs (stores w wy))\<rparr>,
      ds @ map duration (filter success (replies (A wy) reqs (stores w wy))))"
proof (induction reqs arbitrary: w ds)
  case Nil
  show ?case by simp
next
  case (Cons req reqs)
  have "fold (call A wy) (req # reqs) (w, ds) = fold (call A wy) reqs (call A wy req (w, ds))"
    by simp
  also have "\<dots> = (w\<lparr>stores := (stores w)(wy := final_state (A wy) (req # reqs) (stores w wy)),
        trace := trace w @ map2 (Invoke wy) (req # reqs) (replies (A wy) (req # reqs) (stores w wy))\<rparr>,
      ds @ map duration (filter success (replies (A wy) (req # reqs) (stores w wy))))"
    unfolding call_eq Cons.IH by simp
  finally show ?case .
qed

lemma length_replies [simp]: "length (replies A reqs st) = length reqs"
  by (induction reqs arbitrary: st) simp_all

lemma fold_fold_map:
  "fold (\<lambda>c. fold (\<lambda>x. g (f c x)) (h c)) cs = fold g (concat (map (\<lambda>c. map (f c) (h c)) cs))"
  by (induction cs) (simp_all add: fold_map comp_def)

lemma phase_way_loop:
  "(\<lambda>wy w. let (w', durations) = fold (call A wy) plan (w, [])
            in record_stats fl wy key durations w') = phase_way fl A key plan"
  by (intro ext) (simp add: fold_call phase_way_def)

lemma add_phase:
  "benchmarkAddMessages fl A td w0 =
     fold (phase_way fl A ''addMessage'' (add_plan td)) ways (log_event (Enter P_Add) w0)"
  unfolding benchmarkAddMessages_def add_plan_def fold_fold_map[where g="call A wy" for wy]
  by (simp only: phase_way_loop)

lemma read_phase:
  "benchmarkReadMessages fl A td w0 =
     fold (phase_way fl A ''readMessages'' (read_plan td)) ways (log_event (Enter P_Read) w0)"
proof -
  have "\<And>wy. fold (\<lambda>c. call A wy (GetChatMessages (chatId c) 60)) td
              = fold (call A wy) (read_plan td)"
    by (simp add: read_plan_def fold_map comp_def)
  then show ?thesis
    unfolding benchmarkReadMessages_def by (simp only: phase_way_loop)
qed

lemma edit_phase:
  "benchmarkEditMessages fl A td w0 =
     fold (phase_way fl A ''editMessage'' (edit_plan td)) ways (log_event (Enter P_Edit) w0)"
  unfolding benchmarkEditMessages_def edit_plan_def Let_def
    fold_fold_map[where g="call A wy" for wy]
  by (simp only: phase_way_loop[unfolded Let_def])

lemma delete_phase:
  "benchmarkDeleteMessages fl A td w0 =
     fold (phase_way fl A ''deleteMessage'' (delete_plan td)) ways (log_event (Enter P_Delete) w0)"
proof -
  have "\<And>n. nat (max 0 (int n - 5)) = n - 5" by simp
  then show ?thesis
    unfolding benchmarkDeleteMessages_def delete_plan_def Let_def
      fold_fold_map[where g="call A wy" for wy]
    by (simp only: phase_way_loop[unfolded Let_def])
qed

lemma phase_fold_trace:
  "trace (fold (phase_way fl A key plan) ways w) =
     trace w @ concat (map (\<lambda>wy. map2 (Invoke wy) plan (replies (A wy) plan (stores w wy))) ways)"
  by (simp add: ways_def phase_way_def record_stats_def)

lemma phase_fold_stores:
  "stores (fold (phase_way fl A key plan) ways w) wy = final_state (A wy) plan (stores w wy)"
  by (cases wy) (simp_all add: ways_def phase_way_def record_stats_def)

lemma phase_fold_results:
  "results (fold (phase_way fl A key plan) ways w) wy =
     (results w wy)(key \<mapsto>
        summarize fl (map duration (filter success (replies (A wy) plan (stores w wy)))))"
  by (cases wy) (simp_all add: ways_def phase_way_def record_stats_def)

lemma phase_fold_rest:
  "storage_stats (fold (phase_way fl A key plan) ways w) = storage_stats w"
  "uuids_used (fold (phase_way fl A key plan) ways w) = uuids_used w"
  "randoms_used (fold (phase_way fl A key plan) ways w) = randoms_used w"
  "clock_reads (fold (phase_way fl A key plan) ways w) = clock_reads w"
  by (simp_all add: ways_def phase_way_def record_stats_def)

lemma delivered_append [simp]: "delivered wy (xs @ ys) = delivered wy xs @ delivered wy ys"
  by (simp add: delivered_def)

lemma requested_append [simp]: "requested wy (xs @ ys) = requested wy xs @ requested wy ys"
  by (simp add: requested_def)

lemma delivered_Cons [simp]: "delivered wy (e # evs) = event_result wy e @ delivered wy evs"
  by (simp add: delivered_def)

lemma requested_Cons [simp]: "requested wy (e # evs) = event_request wy e @ requested wy evs"
  by (simp add: requested_def)

lemma delivered_Nil [simp]: "delivered wy [] = []"
  by (simp add: delivered_def)

lemma requested_Nil [simp]: "requested wy [] = []"
  by (simp add: requested_def)

lemma delivered_Invoke:
  "length rs = length reqs \<Longrightarrow>
   delivered wy (map2 (Invoke wy') reqs rs) = (if wy' = wy then rs else [])"
  by (induction reqs rs rule: list_induct2') simp_all

lemma requested_Invoke:
  "length rs = length reqs \<Longrightarrow>
   requested wy (map2 (Invoke wy') reqs rs) = (if wy' = wy then reqs else [])"
  by (induction reqs rs rule: list_induct2') simp_all

lemma since_append: "trace w' = trace w @ evs \<Longrightarrow> since w w' = evs"
  by (simp add: since_def)

lemma phase_fold_delivered:
  "delivered wy (since w0 (fold (phase_way fl A key plan) ways (log_event e w0))) =
     event_result wy e @ replies (A wy) plan (stores w0 wy)"
proof -
  have "since w0 (fold (phase_way fl A key plan) ways (log_event e w0)) =
          e # concat (map (\<lambda>wy. map2 (Invoke wy) plan (replies (A wy) plan (stores w0 wy))) ways)"
    by (rule since_append) (simp add: phase_fold_trace log_event_def)
  then show ?thesis
    by (cases wy) (simp_all add: ways_def delivered_Invoke)
qed

lemma phase_fold_requested:
  "requested wy (since w0 (fold (phase_way fl A key plan) ways (log_event e w0))) =
     event_request wy e @ plan"
proof -
  have "since w0 (fold (phase_way fl A key plan) ways (log_event e w0)) =
          e # concat (map (\<lambda>wy. map2 (Invoke wy) plan (replies (A wy) plan (stores w0 wy))) ways)"
    by (rule since_append) (simp add: phase_fold_trace log_event_def)
  then show ?thesis
    by (cases wy) (simp_all add: ways_def requested_Invoke)
qed

section \<open>The concurrent-read phase in closed form\<close>

lemma issue_eq:
  "issue A wy td i (w, ps) =
     (w\<lparr>stores := (stores w)(wy := snd (invoke (A wy) (read_request td i) (stores w wy))),
        trace := trace w @ [Issue wy i (read_request td i)]\<rparr>,
      ps @ [fst (invoke (A wy) (read_request td i) (stores w wy))])"
  by (simp add: issue_def read_request_def split_beta Let_def)

lemma fold_issue:
  "fold (issue A wy td) js (w, ps) =
     (w\<lparr>stores := (stores w)(wy := final_state (A wy) (map (read_request td) js) (stores w wy)),
        trace := trace w @ map (\<lambda>i. Issue wy i (read_request td i)) js\<rparr>,
      ps @ replies (A wy) (map (read_request td) js) (stores w wy))"
proof (induction js arbitrary: w ps)
  case Nil
  show ?case by simp
next
  case (Cons j js)
  have "fold (issue A wy td) (j # js) (w, ps) = fold (issue A wy td) js (issue A wy td j (w, ps))"
    by simp
  also have "\<dots> =
     (w\<lparr>stores := (stores w)(wy := final_state (A wy) (map (read_request td) (j # js)) (stores w wy)),
        trace := trace w @ map (\<lambda>i. Issue wy i (read_request td i)) (j # js)\<rparr>,
      ps @ replies (A wy) (map (read_request td) (j # js)) (stores w wy))"
    unfolding issue_eq Cons.IH by simp
  finally show ?case .
qed

lemma settle_eq:
  "settle wy ps k (w, ds, settled) =
     (if k < length ps \<and> k \<notin> set settled
      then (w\<lparr>trace := trace w @ [Settle wy k (ps ! k)]\<rparr>,
            if success (ps ! k) then ds @ [duration (ps ! k)] else ds,
            settled @ [k])
      else (w, ds, settled))"
  by (simp add: settle_def log_event_def Let_def)

lemma fold_settle:
  "fold (settle wy ps) ks (w, ds, settled) =
     (w\<lparr>trace := trace w @ map (\<lambda>k. Settle wy k (ps ! k)) (effective (length ps) settled ks)\<rparr>,
      ds @ map duration (filter success (map ((!) ps) (effective (length ps) settled ks))),
      settled @ effective (length ps) settled ks)"
proof (induction ks arbitrary: w ds settled)
  case Nil
  show ?case by simp
next
  case (Cons k ks)
  have "fold (settle wy ps) (k # ks) (w, ds, settled) =
          fold (settle wy ps) ks (settle wy ps k (w, ds, settled))"
    by simp
  also have "\<dots> =
     (w\<lparr>trace := trace w @ map (\<lambda>k. Settle wy k (ps ! k)) (effective (length ps) settled (k # ks))\<rparr>,
      ds @ map duration (filter success (map ((!) ps) (effective (length ps) settled (k # ks)))),
      settled @ effective (length ps) settled (k # ks))"
    unfolding settle_eq by (simp add: Cons.IH)
  finally show ?case .
qed

lemma effective_id:
  "distinct ks \<Longrightarrow> set ks \<subseteq> {..<n} \<Longrightarrow> set ks \<inter> set settled = {} \<Longrightarrow>
   effective n settled ks = ks"
  by (induction ks arbitrary: settled) auto

lemma effective_settles_all: "settles_all n ks \<Longrightarrow> effective n [] ks = ks"
  by (rule effective_id) (auto simp: settles_all_def)

lemma concurrent_way_closed:
  "concurrentReads_way fl A sched td n wy w =
     (if 0 < n \<and> td = [] then Threw TypeError w
      else if set [0..<nat n] \<subseteq> set (effective (nat n) [] (sched wy))
           then Done (concurrent_way_done fl A sched td n wy w)
           else Stalled
                  (w\<lparr>stores := (stores w)(wy := final_state (A wy) (concurrent_plan td n) (stores w wy)),
                     trace := trace w
                       @ map (\<lambda>i. Issue wy i (read_request td i)) [0..<nat n]
                       @ map (\<lambda>k. Settle wy k (replies (A wy) (concurrent_plan td n) (stores w wy) ! k))
                             (effective (nat n) [] (sched wy))\<rparr>))"
proof -
  let ?plan = "concurrent_plan td n"
  let ?ps = "replies (A wy) ?plan (stores w wy)"
  have len: "length ?ps = nat n"
    by (simp add: concurrent_plan_def)
  have all: "list_all (\<lambda>i. i \<in> set (effective (length ?ps) [] (sched wy))) [0..<length ?ps]
             \<longleftrightarrow> set [0..<nat n] \<subseteq> set (effective (nat n) [] (sched wy))"
    unfolding len by (auto simp: list_all_iff)
  show ?thesis
    using all len
    by (simp add: concurrentReads_way_def await_all_def fold_issue fold_settle
        concurrent_way_done_def concurrent_plan_def Let_def)
qed

lemma for_each_Done_fold:
  assumes "for_each body xs w = Done w'"
      and "\<And>x u u'. body x u = Done u' \<Longrightarrow> u' = g x u"
  shows "w' = fold g xs w"
  using assms(1)
proof (induction xs arbitrary: w)
  case Nil
  then show ?case by simp
next
  case (Cons x xs)
  then show ?case
    by (cases "body x w") (auto dest: assms(2))
qed

lemma for_each_all_Done:
  assumes "\<And>x u. x \<in> set xs \<Longrightarrow> body x u = Done (g x u)"
  shows "for_each body xs w = Done (fold g xs w)"
  using assms by (induction xs arbitrary: w) simp_all

lemma concurrent_way_Done:
  "concurrentReads_way fl A sched td n wy w = Done w' \<Longrightarrow> w' = concurrent_way_done fl A sched td n wy w"
  by (simp add: concurrent_way_closed split: if_splits)

lemma concurrent_phase_Done:
  assumes "benchmarkConcurrentReads fl A sched td n w0 = Done w'"
  shows "w' = fold (concurrent_way_done fl A sched td n) ways (log_event (Enter P_ConcurrentRead) w0)"
  using assms unfolding benchmarkConcurrentReads_def
  by (rule for_each_Done_fold) (rule concurrent_way_Done)

lemma concurrent_phase_closed:
  assumes "\<And>wy. settles_all (nat n) (sched wy)" and "\<not> (0 < n \<and> td = [])"
  shows "benchmarkConcurrentReads fl A sched td n w0 =
           Done (fold (concurrent_way_done fl A sched td n) ways (log_event (Enter P_ConcurrentRead) w0))"
  unfolding benchmarkConcurrentReads_def
proof (rule for_each_all_Done)
  fix wy u
  have "effective (nat n) [] (sched wy) = sched wy"
    using assms(1) by (rule effective_settles_all)
  moreover have "set [0..<nat n] \<subseteq> set (sched wy)"
    using assms(1)[of wy] by (simp add: settles_all_def)
  ultimately show "concurrentReads_way fl A sched td n wy u = Done (concurrent_way_done fl A sched td n wy u)"
    using assms(2) by (simp add: concurrent_way_closed)
qed

lemma concurrent_fold_trace:
  "trace (fold (concurrent_way_done fl A sched td n) ways w) =
     trace w @ concat (map (\<lambda>wy.
        map (\<lambda>i. Issue wy i (read_request td i)) [0..<nat n]
        @ map (\<lambda>k. Settle wy k (replies (A wy) (concurrent_plan td n) (stores w wy) ! k))
              (effective (nat n) [] (sched wy))) ways)"
  by (simp add: ways_def concurrent_way_done_def record_stats_def Let_def)

lemma concurrent_fold_stores:
  "stores (fold (concurrent_way_done fl A sched td n) ways w) wy =
     final_state (A wy) (concurrent_plan td n) (stores w wy)"
  by (cases wy) (simp_all add: ways_def concurrent_way_done_def record_stats_def Let_def)

lemma concurrent_fold_results:
  "results (fold (concurrent_way_done fl A sched td n) ways w) wy =
     (results w wy)(''concurrentReads'' \<mapsto>
        summarize fl (map duration (filter success
          (map ((!) (replies (A wy) (concurrent_plan td n) (stores w wy)))
               (effective (nat n) [] (sched wy))))))"
  by (cases wy) (simp_all add: ways_def concurrent_way_done_def record_stats_def Let_def)

lemma delivered_Issue: "delivered wy (map (\<lambda>i. Issue wy' i (f i)) js) = []"
  by (induction js) simp_all

lemma delivered_Settle:
  "delivered wy (map (\<lambda>k. Settle wy' k (f k)) ks) = (if wy' = wy then map f ks else [])"
  by (induction ks) simp_all

lemma requested_Issue:
  "requested wy (map (\<lambda>i. Issue wy' i (f i)) js) = (if wy' = wy then map f js else [])"
  by (induction js) simp_all

lemma requested_Settle: "requested wy (map (\<lambda>k. Settle wy' k (f k)) ks) = []"
  by (induction ks) simp_all

lemma concurrent_fold_delivered:
  "delivered wy (since w0 (fold (concurrent_way_done fl A sched td n) ways (log_event e w0))) =
     event_result wy e
     @ map ((!) (replies (A wy) (concurrent_plan td n) (stores w0 wy)))
           (effective (nat n) [] (sched wy))"
proof -
  have "since w0 (fold (concurrent_way_done fl A sched td n) ways (log_event e w0)) =
          e # concat (map (\<lambda>wy.
        map (\<lambda>i. Issue wy i (read_request td i)) [0..<nat n]
        @ map (\<lambda>k. Settle wy k (replies (A wy) (concurrent_plan td n) (stores w0 wy) ! k))
              (effective (nat n) [] (sched wy))) ways)"
    by (rule since_append) (simp add: concurrent_fold_trace log_event_def)
  then show ?thesis
    by (cases wy) (simp_all add: ways_def delivered_Issue delivered_Settle)
qed

lemma concurrent_fold_requested:
  "requested wy (since w0 (fold (concurrent_way_done fl A sched td n) ways (log_event e w0))) =
     event_request wy e @ concurrent_plan td n"
proof -
  have "since w0 (fold (concurrent_way_done fl A sched td n) ways (log_event e w0)) =
          e # concat (map (\<lambda>wy.
        map (\<lambda>i. Issue wy i (read_request td i)) [0..<nat n]
        @ map (\<lambda>k. Settle wy k (replies (A wy) (concurrent_plan td n) (stores w0 wy) ! k))
              (effective (nat n) [] (sched wy))) ways)"
    by (rule since_append) (simp add: concurrent_fold_trace log_event_def)
  then show ?thesis
    by (cases wy) (simp_all add: ways_def requested_Issue requested_Settle concurrent_plan_def)
qed

lemma set_effective: "set (effective n settled ks) \<subseteq> set ks"
  by (induction ks arbitrary: settled) auto

lemma concurrent_way_Done_settled:
  assumes "concurrentReads_way fl A sched td n wy w = Done w'"
  shows "set [0..<nat n] \<subseteq> set (sched wy)"
proof -
  from assms have "set [0..<nat n] \<subseteq> set (effective (nat n) [] (sched wy))"
    by (simp add: concurrent_way_closed split: if_splits)
  with set_effective[of "nat n" "[]" "sched wy"] show ?thesis
    by blast
qed

lemma for_each_Done:
  "for_each body xs w = Done w' \<Longrightarrow> x \<in> set xs \<Longrightarrow> \<exists>u u'. body x u = Done u'"
proof (induction xs arbitrary: w)
  case Nil
  then show ?case by simp
next
  case (Cons y ys)
  show ?case
  proof (cases "body y w")
    case (Done u)
    show ?thesis
    proof (cases "x = y")
      case True
      with Done show ?thesis by blast
    next
      case False
      with Cons Done show ?thesis by auto
    qed
  next
    case (Threw e u)
    with Cons.prems show ?thesis by simp
  next
    case (Stalled u)
    with Cons.prems show ?thesis by simp
  qed
qed

lemma concurrent_phase_Done_settled:
  assumes "benchmarkConcurrentReads fl A sched td n w = Done w'"
  shows "set [0..<nat n] \<subseteq> set (sched wy)"
proof -
  have "wy \<in> set ways" by (cases wy) (simp_all add: ways_def)
  with assms obtain u u' where "concurrentReads_way fl A sched td n wy u = Done u'"
    unfolding benchmarkConcurrentReads_def by (blast dest: for_each_Done)
  then show ?thesis by (rule concurrent_way_Done_settled)
qed

section \<open>The bundle of a phase\<close>

lemma timing_wrapper_well_timed:
  "start \<le> finish \<Longrightarrow> well_timed (timing_wrapper start finish ok)"
  by (simp add: timing_wrapper_def)

lemma well_timed_Num: "well_timed res \<Longrightarrow> \<exists>d. duration res = Num d \<and> 0 \<le> d"
  by (cases "duration res") simp_all


lemma successful_nums:
  assumes "\<forall>res \<in> set rs. success res \<longrightarrow> is_num (duration res)"
  shows "list_all is_num (map duration (filter success rs))"
    and "map the_num (map duration (filter success rs)) = successful rs"
proof -
  show "list_all is_num (map duration (filter success rs))"
    using assms by (simp add: list_all_iff)
  show "map the_num (map duration (filter success rs)) = successful rs"
    by (simp add: successful_def)
qed

lemma summarize_successful:
  assumes "\<forall>res \<in> set rs. success res \<longrightarrow> is_num (duration res)"
  shows "count (summarize fl (map duration (filter success rs))) = length (filter success rs)"
    and "total_s (summarize fl (map duration (filter success rs)))
           = Num (fl_sum fl (successful rs))"
    and "average (summarize fl (map duration (filter success rs)))
           = js_div fl (total_s (summarize fl (map duration (filter success rs))))
               (Num (real (count (summarize fl (map duration (filter success rs))))))"
    and "filter success rs \<noteq> [] \<Longrightarrow>
           average (summarize fl (map duration (filter success rs)))
             = Num (fl (fl_sum fl (successful rs) / real (length (filter success rs))))"
    and "filter success rs \<noteq> [] \<Longrightarrow>
           min_s (summarize fl (map duration (filter success rs)))
             = Num (Min (set (successful rs)))"
    and "filter success rs \<noteq> [] \<Longrightarrow>
           max_s (summarize fl (map duration (filter success rs)))
             = Num (Max (set (successful rs)))"
proof -
  let ?ds = "map duration (filter success rs)"
  note nums = successful_nums[OF assms]
  have r: "reduce_add fl ?ds = Num (fl_sum fl (successful rs))"
    using reduce_add_num[OF nums(1), of fl 0] nums(2)
    by (simp add: reduce_add_def fl_sum_def)
  show "count (summarize fl ?ds) = length (filter success rs)"
    by (simp add: summarize_def)
  show "total_s (summarize fl ?ds) = Num (fl_sum fl (successful rs))"
    using r by (simp add: summarize_def)
  show "average (summarize fl ?ds)
          = js_div fl (total_s (summarize fl ?ds)) (Num (real (count (summarize fl ?ds))))"
    by (simp add: summarize_def)
  show "average (summarize fl ?ds)
          = Num (fl (fl_sum fl (successful rs) / real (length (filter success rs))))"
    if "filter success rs \<noteq> []"
    using that r by (simp add: summarize_def)
  have ne: "?ds \<noteq> []" if "filter success rs \<noteq> []"
    using that by simp
  show "min_s (summarize fl ?ds) = Num (Min (set (successful rs)))"
    if "filter success rs \<noteq> []"
    using Math_min_num[OF nums(1) ne[OF that]] unfolding nums(2)
    by (simp add: summarize_def)
  show "max_s (summarize fl ?ds) = Num (Max (set (successful rs)))"
    if "filter success rs \<noteq> []"
    using Math_max_num[OF nums(1) ne[OF that]] unfolding nums(2)
    by (simp add: summarize_def)
qed

text \<open>What a timed phase leaves, for every operation name.\<close>

lemma operations_disj:
  "key \<in> set operations \<Longrightarrow>
     key = ''addMessage'' \<or> key = ''readMessages'' \<or> key = ''editMessage''
     \<or> key = ''deleteMessage'' \<or> key = ''concurrentReads''"
  unfolding operations_def by (simp only: list.set insert_iff empty_iff simp_thms)

lemma operations_cases:
  assumes "key \<in> set operations"
  obtains "key = ''addMessage''" | "key = ''readMessages''" | "key = ''editMessage''"
    | "key = ''deleteMessage''" | "key = ''concurrentReads''"
  using operations_disj[OF assms] by (elim disjE)

lemma log_event_simps [simp]:
  "stores (log_event e w) = stores w"
  "results (log_event e w) = results w"
  "storage_stats (log_event e w) = storage_stats w"
  "trace (log_event e w) = trace w @ [e]"
  "uuids_used (log_event e w) = uuids_used w"
  "randoms_used (log_event e w) = randoms_used w"
  "clock_reads (log_event e w) = clock_reads w"
  by (simp_all add: log_event_def)

lemma timed_phase_simps:
  "timed_phase fl A sched td n ''addMessage'' w = Done (benchmarkAddMessages fl A td w)"
  "timed_phase fl A sched td n ''readMessages'' w = Done (benchmarkReadMessages fl A td w)"
  "timed_phase fl A sched td n ''editMessage'' w = Done (benchmarkEditMessages fl A td w)"
  "timed_phase fl A sched td n ''deleteMessage'' w = Done (benchmarkDeleteMessages fl A td w)"
  "timed_phase fl A sched td n ''concurrentReads'' w = benchmarkConcurrentReads fl A sched td n w"
  by (simp_all add: timed_phase_def)

lemma effective_distinct:
  "distinct settled \<Longrightarrow> distinct (settled @ effective n settled ks)"
proof (induction ks arbitrary: settled)
  case Nil
  then show ?case by simp
next
  case (Cons k ks)
  show ?case
  proof (cases "k < n \<and> k \<notin> set settled")
    case True
    then have "distinct (settled @ [k])" using Cons.prems by simp
    from Cons.IH[OF this] True show ?thesis by simp
  next
    case False
    with Cons show ?thesis by auto
  qed
qed

lemma effective_bounded: "set (effective n settled ks) \<subseteq> {..<n}"
  by (induction ks arbitrary: settled) auto

lemma effective_length:
  assumes "set [0..<n] \<subseteq> set (effective n [] ks)"
  shows "length (effective n [] ks) = n"
proof -
  have d: "distinct (effective n [] ks)"
    using effective_distinct[of "[]" n ks] by simp
  have "set (effective n [] ks) = {..<n}"
    using assms effective_bounded[of n "[]" ks] by auto
  then have "card (set (effective n [] ks)) = n" by simp
  with d show ?thesis by (simp add: distinct_card)
qed

lemma concurrent_phase_settled:
  assumes "benchmarkConcurrentReads fl A sched td n w = Done w'"
  shows "set [0..<nat n] \<subseteq> set (effective (nat n) [] (sched wy))"
proof -
  have "wy \<in> set ways" by (cases wy) (simp_all add: ways_def)
  with assms obtain u u' where "concurrentReads_way fl A sched td n wy u = Done u'"
    unfolding benchmarkConcurrentReads_def by (blast dest: for_each_Done)
  then show ?thesis
    by (simp add: concurrent_way_closed split: if_splits)
qed

lemma phase_plan_simps:
  "phase_plan td n ''addMessage'' = add_plan td"
  "phase_plan td n ''readMessages'' = read_plan td"
  "phase_plan td n ''editMessage'' = edit_plan td"
  "phase_plan td n ''deleteMessage'' = delete_plan td"
  "phase_plan td n ''concurrentReads'' = concurrent_plan td n"
  by (simp_all add: phase_plan_def)

lemma event_result_Enter [simp]: "event_result wy (Enter p) = []"
  by simp

lemma timed_phase_closed:
  assumes "timed_phase fl A sched td n key w = Done w'" and "key \<in> set operations"
  shows "requested wy (since w w') = phase_plan td n key"
    and "delivered wy (since w w') = phase_replies A sched td n key wy w"
    and "results w' wy key =
           Some (summarize fl (map duration (filter success (phase_replies A sched td n key wy w))))"
    and "key' \<noteq> key \<Longrightarrow> results w' wy key' = results w wy key'"
    and "length (phase_replies A sched td n key wy w) = length (phase_plan td n key)"
proof -
  from assms(2) have
    "requested wy (since w w') = phase_plan td n key
     \<and> delivered wy (since w w') = phase_replies A sched td n key wy w
     \<and> results w' wy key =
           Some (summarize fl (map duration (filter success (phase_replies A sched td n key wy w))))
     \<and> (key' \<noteq> key \<longrightarrow> results w' wy key' = results w wy key')
     \<and> length (phase_replies A sched td n key wy w) = length (phase_plan td n key)"
  proof (cases rule: operations_cases)
    case 1
    with assms(1) have "w' = fold (phase_way fl A ''addMessage'' (add_plan td)) ways (log_event (Enter P_Add) w)"
      by (simp add: timed_phase_simps add_phase)
    then show ?thesis
      by (simp add: 1 phase_plan_simps phase_replies_def phase_fold_requested
          phase_fold_delivered phase_fold_results)
  next
    case 2
    with assms(1) have "w' = fold (phase_way fl A ''readMessages'' (read_plan td)) ways (log_event (Enter P_Read) w)"
      by (simp add: timed_phase_simps read_phase)
    then show ?thesis
      by (simp add: 2 phase_plan_simps phase_replies_def phase_fold_requested
          phase_fold_delivered phase_fold_results)
  next
    case 3
    with assms(1) have "w' = fold (phase_way fl A ''editMessage'' (edit_plan td)) ways (log_event (Enter P_Edit) w)"
      by (simp add: timed_phase_simps edit_phase)
    then show ?thesis
      by (simp add: 3 phase_plan_simps phase_replies_def phase_fold_requested
          phase_fold_delivered phase_fold_results)
  next
    case 4
    with assms(1) have "w' = fold (phase_way fl A ''deleteMessage'' (delete_plan td)) ways (log_event (Enter P_Delete) w)"
      by (simp add: timed_phase_simps delete_phase)
    then show ?thesis
      by (simp add: 4 phase_plan_simps phase_replies_def phase_fold_requested
          phase_fold_delivered phase_fold_results)
  next
    case 5
    with assms(1) have c: "benchmarkConcurrentReads fl A sched td n w = Done w'"
      by (simp add: timed_phase_simps)
    then have w': "w' = fold (concurrent_way_done fl A sched td n) ways (log_event (Enter P_ConcurrentRead) w)"
      by (rule concurrent_phase_Done)
    have "length (effective (nat n) [] (sched wy)) = nat n"
      using concurrent_phase_settled[OF c] by (rule effective_length)
    then show ?thesis
      by (simp add: 5 w' phase_plan_simps phase_replies_def concurrent_fold_requested
          concurrent_fold_delivered concurrent_fold_results concurrent_plan_def)
  qed
  then show "requested wy (since w w') = phase_plan td n key"
    and "delivered wy (since w w') = phase_replies A sched td n key wy w"
    and "results w' wy key =
           Some (summarize fl (map duration (filter success (phase_replies A sched td n key wy w))))"
    and "key' \<noteq> key \<Longrightarrow> results w' wy key' = results w wy key'"
    and "length (phase_replies A sched td n key wy w) = length (phase_plan td n key)"
    by simp_all
qed


section \<open>Claims on the statistics\<close>

text \<open>
  Claim C1, amended. Take any of the five timed phases (add, read, edit, delete, concurrent
  read), identified by the operation name under which it records, and any variant. The
  results that reach the phase are the replies of the variant's adapter to the calls of
  the phase, and the bundle is computed from the durations of the successful ones, as the
  adapter returned them. If each of these durations is a finite number, then \<open>count\<close> is
  the number of successful calls, \<open>total\<close> is the sum of their durations added from the left
  starting at 0, each addition rounded, \<open>average\<close> is the rounded quotient of \<open>total\<close> by
  \<open>count\<close>, and \<open>min\<close> and \<open>max\<close> are the least and the greatest of these durations when
  there is one. Nothing is said of the sign of a duration: the phase records what the
  adapter returns.
\<close>

theorem stats_bundle_of_successful_calls:
  assumes "timed_phase fl A sched td n key w = Done w'"
      and "key \<in> set operations"
      and "\<forall>res \<in> set (phase_replies A sched td n key wy w).
             success res \<longrightarrow> is_num (duration res)"
  shows "delivered wy (since w w') = phase_replies A sched td n key wy w
       \<and> (\<exists>s. results w' wy key = Some s
            \<and> s = summarize fl (map duration (filter success (phase_replies A sched td n key wy w)))
            \<and> count s = length (filter success (phase_replies A sched td n key wy w))
            \<and> total_s s = Num (fl_sum fl (successful (phase_replies A sched td n key wy w)))
            \<and> average s = js_div fl (total_s s) (Num (real (count s)))
            \<and> (count s \<noteq> 0 \<longrightarrow>
                 average s = Num (fl (fl_sum fl (successful (phase_replies A sched td n key wy w))
                                      / real (count s)))
                 \<and> min_s s = Num (Min (set (successful (phase_replies A sched td n key wy w))))
                 \<and> max_s s = Num (Max (set (successful (phase_replies A sched td n key wy w))))))"
proof -
  let ?rs = "phase_replies A sched td n key wy w"
  let ?s = "summarize fl (map duration (filter success ?rs))"
  note ph = timed_phase_closed[OF assms(1,2), where wy=wy]
  note sm = summarize_successful[OF assms(3), where fl=fl]
  have c: "count ?s = length (filter success ?rs)"
    by (rule sm(1))
  have nz: "filter success ?rs \<noteq> []" if "count ?s \<noteq> 0"
    using that c by auto
  have "count ?s \<noteq> 0 \<longrightarrow>
          average ?s = Num (fl (fl_sum fl (successful ?rs) / real (count ?s)))
          \<and> min_s ?s = Num (Min (set (successful ?rs)))
          \<and> max_s ?s = Num (Max (set (successful ?rs)))"
    using sm(4,5,6)[OF nz] c by simp
  with ph(2,3) c sm(2,3) show ?thesis
    by (intro conjI exI[of _ ?s]) simp_all
qed

lemma demo_delete_replies:
  "phase_replies demo_adapters sched demo_data n ''deleteMessage'' Way1 demo_world
     = [\<lparr> success = True, duration = Num 3 \<rparr>, \<lparr> success = False, duration = Num 3 \<rparr>]"
  by (simp add: phase_replies_def phase_plan_def delete_plan_def demo_data_def
      demo_adapters_def demo_adapter_def demo_world_def)

theorem stats_bundle_of_successful_calls_witness:
  "delivered Way1
     (since demo_world (benchmarkDeleteMessages demo_fl demo_adapters demo_data demo_world))
     = [\<lparr> success = True, duration = Num 3 \<rparr>, \<lparr> success = False, duration = Num 3 \<rparr>]
   \<and> (\<exists>s. results (benchmarkDeleteMessages demo_fl demo_adapters demo_data demo_world)
             Way1 ''deleteMessage'' = Some s
          \<and> count s = 1 \<and> total_s s = Num 3 \<and> average s = Num 3
          \<and> min_s s = Num 3 \<and> max_s s = Num 3)"
proof -
  let ?w' = "benchmarkDeleteMessages demo_fl demo_adapters demo_data demo_world"
  have h1: "timed_phase demo_fl demo_adapters demo_schedule demo_data 50 ''deleteMessage''
              demo_world = Done ?w'"
    by (simp add: timed_phase_simps)
  have h2: "''deleteMessage'' \<in> set operations"
    by (simp add: operations_def)
  have h3: "\<forall>res \<in> set (phase_replies demo_adapters demo_schedule demo_data 50
                            ''deleteMessage'' Way1 demo_world).
              success res \<longrightarrow> is_num (duration res)"
    by (simp add: demo_delete_replies)
  show ?thesis
    using stats_bundle_of_successful_calls[OF h1 h2 h3]
    by (auto simp add: demo_delete_replies successful_def fl_sum_def demo_fl_def)
qed

text \<open>
  An adapter that returns success with the duration -1 on each \<open>addMessage\<close>: the add phase
  records both durations, and the bundle has the minimum -1 and the total -2.
\<close>

theorem negative_duration_recorded_counterexample:
  "delivered Way1
     (since demo_world (benchmarkAddMessages demo_fl skewed_adapters demo_data demo_world))
     = [\<lparr> success = True, duration = Num (- 1) \<rparr>, \<lparr> success = True, duration = Num (- 1) \<rparr>]
   \<and> results (benchmarkAddMessages demo_fl skewed_adapters demo_data demo_world)
        Way1 ''addMessage''
     = Some \<lparr> average = Num (- 1), min_s = Num (- 1), max_s = Num (- 1),
              total_s = Num (- 2), count = 2 \<rparr>"
  by (simp add: add_phase phase_fold_delivered phase_fold_results add_plan_def demo_data_def
      skewed_adapters_def demo_adapter_def demo_world_def summarize_def reduce_add_def
      Math_min_def Math_max_def demo_fl_def)


lemma upt_2: "[0..<2] = [0, Suc 0]"
  by (simp add: upt_rec numeral_2_eq_2)




section \<open>Claims on the concurrent-read phase\<close>

lemma await_all_durations:
  "fst (snd (await_all wy ps ks w)) =
     map duration (filter success (map ((!) ps) (effective (length ps) [] ks)))"
  by (simp add: await_all_def fold_settle)

text \<open>
  Claim C7, amended. With test data that is not empty, the concurrent-read phase issues
  exactly \<open>concurrentUsers\<close> reads on each variant, all of them before any callback runs,
  and computes the statistics once every request has settled; the array of durations
  holds the successful durations in the order in which the requests complete, which is
  the order of the schedule and not the order of issue. The phase returns only if every
  request has settled.
\<close>

theorem concurrent_reads_gathered_in_completion_order:
  assumes "td \<noteq> [] \<or> n \<le> 0"
      and "\<forall>wy. settles_all (nat n) (sched wy)"
  shows "(\<exists>w'. benchmarkConcurrentReads fl A sched td n w = Done w'
           \<and> since w w' =
               Enter P_ConcurrentRead #
               concat (map (\<lambda>wy.
                   map (\<lambda>i. Issue wy i (read_request td i)) [0..<nat n]
                   @ map (\<lambda>k. Settle wy k (replies (A wy) (concurrent_plan td n) (stores w wy) ! k))
                         (sched wy)) ways)
           \<and> (\<forall>wy u. fst (snd (await_all wy (replies (A wy) (concurrent_plan td n) (stores w wy))
                                   (sched wy) u))
                       = map duration (filter success
                           (map ((!) (replies (A wy) (concurrent_plan td n) (stores w wy))) (sched wy))))
           \<and> (\<forall>wy. results w' wy ''concurrentReads'' =
                  Some (summarize fl (map duration (filter success
                    (map ((!) (replies (A wy) (concurrent_plan td n) (stores w wy))) (sched wy)))))))
         \<and> (\<forall>w'. benchmarkConcurrentReads fl A sched' td n w = Done w' \<longrightarrow>
               (\<forall>wy. set [0..<nat n] \<subseteq> set (sched' wy)))"
proof -
  let ?w' = "fold (concurrent_way_done fl A sched td n) ways (log_event (Enter P_ConcurrentRead) w)"
  have eff: "effective (nat n) [] (sched wy) = sched wy" for wy
    using assms(2) by (simp add: effective_settles_all)
  have dn: "benchmarkConcurrentReads fl A sched td n w = Done ?w'"
    using assms by (intro concurrent_phase_closed) auto
  have tr: "since w ?w' =
               Enter P_ConcurrentRead #
               concat (map (\<lambda>wy.
                   map (\<lambda>i. Issue wy i (read_request td i)) [0..<nat n]
                   @ map (\<lambda>k. Settle wy k (replies (A wy) (concurrent_plan td n) (stores w wy) ! k))
                         (sched wy)) ways)"
    by (rule since_append) (simp add: concurrent_fold_trace eff)
  have aw: "fst (snd (await_all wy (replies (A wy) (concurrent_plan td n) (stores w wy)) (sched wy) u))
              = map duration (filter success
                  (map ((!) (replies (A wy) (concurrent_plan td n) (stores w wy))) (sched wy)))"
    for wy u
    by (simp add: await_all_durations concurrent_plan_def eff)
  have res: "results ?w' wy ''concurrentReads'' =
                  Some (summarize fl (map duration (filter success
                    (map ((!) (replies (A wy) (concurrent_plan td n) (stores w wy))) (sched wy)))))"
    for wy
    by (simp add: concurrent_fold_results eff)
  have first: "\<exists>w'. benchmarkConcurrentReads fl A sched td n w = Done w'
           \<and> since w w' =
               Enter P_ConcurrentRead #
               concat (map (\<lambda>wy.
                   map (\<lambda>i. Issue wy i (read_request td i)) [0..<nat n]
                   @ map (\<lambda>k. Settle wy k (replies (A wy) (concurrent_plan td n) (stores w wy) ! k))
                         (sched wy)) ways)
           \<and> (\<forall>wy u. fst (snd (await_all wy (replies (A wy) (concurrent_plan td n) (stores w wy))
                                   (sched wy) u))
                       = map duration (filter success
                           (map ((!) (replies (A wy) (concurrent_plan td n) (stores w wy))) (sched wy))))
           \<and> (\<forall>wy. results w' wy ''concurrentReads'' =
                  Some (summarize fl (map duration (filter success
                    (map ((!) (replies (A wy) (concurrent_plan td n) (stores w wy))) (sched wy))))))"
    using dn tr aw res by blast
  have second: "\<forall>w'. benchmarkConcurrentReads fl A sched' td n w = Done w' \<longrightarrow>
               (\<forall>wy. set [0..<nat n] \<subseteq> set (sched' wy))"
    using concurrent_phase_Done_settled by blast
  from first second show ?thesis ..
qed

lemma demo_promises:
  "replies demo_adapter (concurrent_plan demo_data 2) 0
     = [\<lparr> success = True, duration = Num 0 \<rparr>, \<lparr> success = True, duration = Num 1 \<rparr>]"
  by (simp add: concurrent_plan_def read_request_def demo_adapter_def upt_2)

theorem concurrent_reads_gathered_in_completion_order_witness:
  "\<exists>w'. benchmarkConcurrentReads demo_fl (\<lambda>wy. demo_adapter) (\<lambda>wy. [1, 0]) demo_data 2 demo_world = Done w'
       \<and> delivered Way1 (since demo_world w')
           = [\<lparr> success = True, duration = Num 1 \<rparr>, \<lparr> success = True, duration = Num 0 \<rparr>]
       \<and> results w' Way1 ''concurrentReads'' = Some (summarize demo_fl [Num 1, Num 0])
       \<and> set [0..<nat 2] \<subseteq> set [1, 0 :: nat]"
proof -
  have h1: "demo_data \<noteq> [] \<or> (2::int) \<le> 0"
    by (simp add: demo_data_def)
  have h2: "\<forall>wy::way. settles_all (nat 2) ((\<lambda>wy. [1, 0]) wy)"
    by (simp add: settles_all_def upt_2 insert_commute)
  have st: "stores demo_world wy = 0" for wy
    by (simp add: demo_world_def)
  show ?thesis
    using concurrent_reads_gathered_in_completion_order[OF h1 h2,
        where fl=demo_fl and A="\<lambda>wy. demo_adapter" and w=demo_world and sched'="\<lambda>wy. [1, 0]"]
    by (auto simp add: st demo_promises ways_def delivered_Issue)
qed

text \<open>
  Two reads issued in the order 0, 1 with durations 0 and 1, completing in the order 1, 0:
  the array of durations is \<open>[1, 0]\<close>.
\<close>

theorem durations_in_issue_order_counterexample:
  "map duration (replies demo_adapter (concurrent_plan demo_data 2) 0) = [Num 0, Num 1]
   \<and> fst (snd (await_all Way1 (replies demo_adapter (concurrent_plan demo_data 2) 0) [1, 0]
                  demo_world))
       = [Num 1, Num 0]"
  by (simp add: demo_promises await_all_def settle_def log_event_def)

section \<open>Claims on the test data generator\<close>

lemma show_nat_digit: "n < 10 \<Longrightarrow> show_nat n = [''0123456789'' ! n]"
  by (simp add: show_nat.simps)

lemma sender_in_pool:
  assumes "0 \<le> r" "r < (1::real)"
  shows "''user-'' @ show_int (\<lfloor>r * 5\<rfloor> + 1) \<in> senders"
proof -
  have "0 \<le> \<lfloor>r * 5\<rfloor>" using assms by simp
  moreover have "\<lfloor>r * 5\<rfloor> < 5" using assms by (simp add: floor_less_iff)
  ultimately have "\<lfloor>r * 5\<rfloor> = 0 \<or> \<lfloor>r * 5\<rfloor> = 1 \<or> \<lfloor>r * 5\<rfloor> = 2 \<or> \<lfloor>r * 5\<rfloor> = 3 \<or> \<lfloor>r * 5\<rfloor> = 4"
    by linarith
  then show ?thesis
    by (auto simp: senders_def show_int_def show_nat_digit)
qed

lemma time_clip_window:
  assumes "0 \<le> r" "r < (1::real)"
  shows "now - 86400000 \<le> time_clip (real_of_int now - r * 86400000)"
    and "time_clip (real_of_int now - r * 86400000) \<le> now"
proof -
  let ?v = "real_of_int now - r * 86400000"
  have lo: "real_of_int (now - 86400000) \<le> ?v" using assms by simp
  have hi: "?v \<le> real_of_int now" using assms by simp
  show "now - 86400000 \<le> time_clip ?v"
    using lo unfolding time_clip_def by (auto simp: le_floor_iff le_ceiling_iff intro: order_trans)
  show "time_clip ?v \<le> now"
    using hi unfolding time_clip_def by (auto simp: floor_le_iff ceiling_le_iff)
qed

lemma make_message_generated:
  assumes "\<forall>k. 0 \<le> Math_random E k \<and> Math_random E k < 1"
  shows "generated E (clock_reads w) (Suc (clock_reads w)) (fst (make_message E i j w))"
    and "untouched w (snd (make_message E i j w))"
    and "clock_reads (snd (make_message E i j w)) = Suc (clock_reads w)"
proof -
  let ?r2 = "Math_random E (randoms_used w + 1)"
  let ?r3 = "Math_random E (randoms_used w + 2)"
  have s: "sender (fst (make_message E i j w)) \<in> senders"
    using sender_in_pool[of ?r2] assms by (simp add: make_message_def Let_def)
  have t: "Date_now E (clock_reads w) - 86400000 \<le> timestamp (fst (make_message E i j w))
           \<and> timestamp (fst (make_message E i j w)) \<le> Date_now E (clock_reads w)"
    using time_clip_window[of ?r3 "Date_now E (clock_reads w)"] assms
    by (simp add: make_message_def Let_def)
  have ty: "type_m (fst (make_message E i j w)) = ''text''"
    by (simp add: make_message_def Let_def)
  show "generated E (clock_reads w) (Suc (clock_reads w)) (fst (make_message E i j w))"
    unfolding generated_def using s t ty by auto
  show "untouched w (snd (make_message E i j w))"
    by (simp add: make_message_def Let_def untouched_def)
  show "clock_reads (snd (make_message E i j w)) = Suc (clock_reads w)"
    by (simp add: make_message_def Let_def)
qed

lemma generated_mono:
  "generated E lo hi m \<Longrightarrow> lo' \<le> lo \<Longrightarrow> hi \<le> hi' \<Longrightarrow> generated E lo' hi' m"
  unfolding generated_def by (meson atLeastLessThan_iff le_trans less_le_trans)

lemma untouched_trans: "untouched w w' \<Longrightarrow> untouched w' w'' \<Longrightarrow> untouched w w''"
  by (simp add: untouched_def)

lemma untouched_refl: "untouched w w"
  by (simp add: untouched_def)

lemma fold_push_message:
  assumes "\<forall>k. 0 \<le> Math_random E k \<and> Math_random E k < 1"
  shows "length (fst (fold (push_message E i) js (ms, w))) = length ms + length js
         \<and> untouched w (snd (fold (push_message E i) js (ms, w)))
         \<and> clock_reads w \<le> clock_reads (snd (fold (push_message E i) js (ms, w)))
         \<and> (\<forall>m \<in> set (fst (fold (push_message E i) js (ms, w))).
               m \<in> set ms
               \<or> generated E (clock_reads w)
                    (clock_reads (snd (fold (push_message E i) js (ms, w)))) m)"
proof (induction js arbitrary: ms w)
  case Nil
  show ?case by (simp add: untouched_refl)
next
  case (Cons j js)
  let ?m = "fst (make_message E i j w)"
  let ?w1 = "snd (make_message E i j w)"
  let ?r = "fold (push_message E i) js (ms @ [?m], ?w1)"
  have step: "fold (push_message E i) (j # js) (ms, w) = ?r"
    by (simp add: push_message_def split_beta)
  note mm = make_message_generated[OF assms, where w=w and i=i and j=j]
  note IH = Cons.IH[of "ms @ [?m]" ?w1]
  have clk: "clock_reads w \<le> clock_reads (snd ?r)"
    using IH mm(3) by simp
  have "m \<in> set ms \<or> generated E (clock_reads w) (clock_reads (snd ?r)) m"
    if "m \<in> set (fst ?r)" for m
  proof -
    from IH that have "m \<in> set (ms @ [?m]) \<or> generated E (clock_reads ?w1) (clock_reads (snd ?r)) m"
      by blast
    then consider "m \<in> set ms" | "m = ?m" | "generated E (clock_reads ?w1) (clock_reads (snd ?r)) m"
      by auto
    then show ?thesis
    proof cases
      case 1 then show ?thesis by simp
    next
      case 2
      have "Suc (clock_reads w) \<le> clock_reads (snd ?r)" using IH mm(3) by simp
      with mm(1) 2 show ?thesis by (auto intro: generated_mono)
    next
      case 3
      then show ?thesis using mm(3) by (auto intro: generated_mono)
    qed
  qed
  moreover have "untouched w (snd ?r)"
    using IH mm(2) by (blast intro: untouched_trans)
  moreover have "length (fst ?r) = length ms + length (j # js)"
    using IH by simp
  ultimately show ?case
    unfolding step using clk by blast
qed

lemma fold_push_chat:
  assumes "\<forall>k. 0 \<le> Math_random E k \<and> Math_random E k < 1"
  shows "length (fst (fold (push_chat E mpc) js (td, w))) = length td + length js
         \<and> untouched w (snd (fold (push_chat E mpc) js (td, w)))
         \<and> clock_reads w \<le> clock_reads (snd (fold (push_chat E mpc) js (td, w)))
         \<and> (\<forall>c \<in> set (fst (fold (push_chat E mpc) js (td, w))).
               c \<in> set td
               \<or> length (messages c) = nat mpc
                 \<and> (\<forall>m \<in> set (messages c).
                       generated E (clock_reads w)
                         (clock_reads (snd (fold (push_chat E mpc) js (td, w)))) m))"
proof (induction js arbitrary: td w)
  case Nil
  show ?case by (simp add: untouched_refl)
next
  case (Cons j js)
  let ?inner = "fold (push_message E j) [0..<nat mpc] ([], w)"
  let ?c = "\<lparr> chatId = ''chat-'' @ show_nat (j + 1), messages = fst ?inner \<rparr>"
  let ?w1 = "snd ?inner"
  let ?r = "fold (push_chat E mpc) js (td @ [?c], ?w1)"
  have step: "fold (push_chat E mpc) (j # js) (td, w) = ?r"
    by (simp add: push_chat_def split_beta)
  note inner = fold_push_message[OF assms, where i=j and js="[0..<nat mpc]" and ms="[]" and w=w]
  note IH = Cons.IH[of "td @ [?c]" ?w1]
  have clk1: "clock_reads w \<le> clock_reads ?w1" using inner by blast
  have clk2: "clock_reads ?w1 \<le> clock_reads (snd ?r)" using IH by blast
  have "c \<in> set td
        \<or> length (messages c) = nat mpc
          \<and> (\<forall>m \<in> set (messages c). generated E (clock_reads w) (clock_reads (snd ?r)) m)"
    if "c \<in> set (fst ?r)" for c
  proof -
    from IH that consider "c \<in> set td" | "c = ?c"
      | "length (messages c) = nat mpc
         \<and> (\<forall>m \<in> set (messages c). generated E (clock_reads ?w1) (clock_reads (snd ?r)) m)"
      by auto
    then show ?thesis
    proof cases
      case 1 then show ?thesis by simp
    next
      case 2
      have "length (messages c) = nat mpc" using inner 2 by simp
      moreover have "generated E (clock_reads w) (clock_reads (snd ?r)) m"
        if "m \<in> set (messages c)" for m
      proof -
        from that 2 inner have "generated E (clock_reads w) (clock_reads ?w1) m" by simp
        then show ?thesis using clk2 by (auto intro: generated_mono)
      qed
      ultimately show ?thesis by blast
    next
      case 3
      then show ?thesis using clk1 by (blast intro: generated_mono)
    qed
  qed
  moreover have "untouched w (snd ?r)"
    using IH inner by (blast intro: untouched_trans)
  moreover have "length (fst ?r) = length td + length (j # js)"
    using IH by simp
  moreover have "clock_reads w \<le> clock_reads (snd ?r)"
    using clk1 clk2 by simp
  ultimately show ?case
    unfolding step by blast
qed

text \<open>
  Claim C6. For \<open>numChats\<close> and \<open>messagesPerChat\<close> not negative, and \<open>Math.random\<close> returning
  numbers of the interval from 0 (included) to 1 (excluded), \<open>generateTestData\<close> returns
  exactly \<open>numChats\<close> chats of exactly \<open>messagesPerChat\<close> messages each; every message has
  its sender among \<open>user-1\<close>, ..., \<open>user-5\<close>, the type \<open>text\<close>, and a timestamp in the 24
  hours up to a reading of the clock taken during the call. The adapters' states, the
  results and the log are as before the call: nothing is stored.
\<close>

theorem generateTestData_shape:
  assumes "\<forall>k. 0 \<le> Math_random E k \<and> Math_random E k < 1"
      and "0 \<le> numChats" and "0 \<le> messagesPerChat"
  shows "int (length (fst (generateTestData E numChats messagesPerChat w))) = numChats
         \<and> (\<forall>c \<in> set (fst (generateTestData E numChats messagesPerChat w)).
               int (length (messages c)) = messagesPerChat
               \<and> (\<forall>m \<in> set (messages c).
                     generated E (clock_reads w)
                       (clock_reads (snd (generateTestData E numChats messagesPerChat w))) m))
         \<and> untouched w (snd (generateTestData E numChats messagesPerChat w))"
  using fold_push_chat[OF assms(1), where mpc=messagesPerChat and js="[0..<nat numChats]"
      and td="[]" and w=w] assms(2,3)
  unfolding generateTestData_def by simp

lemma upt_1: "[0..<1] = [0]"
  by simp

lemma demo_generated:
  "fst (generateTestData demo_env 1 1 demo_world) =
     [\<lparr> chatId = ''chat-1'',
        messages = [\<lparr> id_m = ''id-0'', content = ''Message 1 in chat 1 - '',
                      sender = ''user-3'', timestamp = 1699956800000,
                      type_m = ''text'' \<rparr>] \<rparr>]"
  by (simp add: generateTestData_def push_chat_def push_message_def make_message_def
      demo_env_def demo_world_def show_nat_digit show_int_def time_clip_def Let_def)

theorem generateTestData_shape_witness:
  "length (fst (generateTestData demo_env 1 1 demo_world)) = 1
   \<and> list_all (\<lambda>c. length (messages c) = 1
                   \<and> list_all (\<lambda>m. sender m = ''user-3'' \<and> type_m m = ''text''
                         \<and> generated demo_env 0
                             (clock_reads (snd (generateTestData demo_env 1 1 demo_world))) m)
                       (messages c))
        (fst (generateTestData demo_env 1 1 demo_world))
   \<and> untouched demo_world (snd (generateTestData demo_env 1 1 demo_world))"
proof -
  have h1: "\<forall>k. 0 \<le> Math_random demo_env k \<and> Math_random demo_env k < 1"
    by (simp add: demo_env_def)
  have h2: "(0::int) \<le> 1" by simp
  have c0: "clock_reads demo_world = 0" by (simp add: demo_world_def)
  show ?thesis
    using generateTestData_shape[OF h1 h2 h2, of demo_world]
    by (simp add: demo_generated c0)
qed

section \<open>The report in closed form\<close>

lemma length_insert_sorted [simp]: "length (insert_sorted cmp x ys) = Suc (length ys)"
  by (induction ys) simp_all

lemma length_Array_sort [simp]: "length (Array_sort cmp xs) = length xs"
  by (induction xs) (simp_all add: Array_sort_def)

lemma op_winner_recorded:
  assumes "\<exists>wy. res wy op \<noteq> None"
  shows "\<exists>wy. op_winner fl res op = Inr wy"
proof -
  let ?rs = "concat (map (\<lambda>wy. case res wy op of None \<Rightarrow> [] | Some s \<Rightarrow> [(wy, average s)]) ways)"
  from assms obtain wy s where "res wy op = Some s" by auto
  then have "?rs \<noteq> []"
    by (cases wy) (auto simp: ways_def)
  then have "length (Array_sort (\<lambda>a b. js_sub fl (snd a) (snd b)) ?rs) \<noteq> 0"
    by simp
  then obtain r rest where "Array_sort (\<lambda>a b. js_sub fl (snd a) (snd b)) ?rs = r # rest"
    by (cases "Array_sort (\<lambda>a b. js_sub fl (snd a) (snd b)) ?rs") auto
  then show ?thesis
    by (simp add: op_winner_def)
qed

lemma winners_of_recorded:
  assumes "\<forall>op \<in> set ops. \<exists>wy. res wy op \<noteq> None"
  shows "\<exists>ws. winners_of fl res ops = Inr ws \<and> map fst ws = ops"
  using assms
proof (induction ops)
  case Nil
  show ?case by simp
next
  case (Cons op ops)
  then obtain ws where "winners_of fl res ops = Inr ws" "map fst ws = ops" by auto
  moreover from Cons.prems op_winner_recorded[of res op] obtain wy where "op_winner fl res op = Inr wy"
    by auto
  ultimately show ?case by simp
qed

lemma winner_name_present:
  assumes "op \<in> set (map fst ws)"
  shows "\<exists>nm. winner_name ws op = Inr nm"
proof -
  from assms have "map_of ws op \<noteq> None"
    by (simp add: map_of_eq_None_iff)
  then show ?thesis
    by (auto simp: winner_name_def)
qed

lemma analyzeResults_recorded:
  assumes "\<forall>op \<in> set operations. \<exists>wy. res wy op \<noteq> None"
      and "overallWinner fl res = Inr ow"
  shows "\<exists>recs. analyzeResults fl res = Inr recs
           \<and> hd recs = ''Overall Best Performance: '' @ toUpperCase (way_key ow)
                          @ '' - Best for general use cases''"
proof -
  from winners_of_recorded[OF assms(1)] obtain ws where
    ws: "winners_of fl res operations = Inr ws" "map fst ws = operations" by blast
  have m1: "''readMessages'' \<in> set (map fst ws)"
    unfolding ws(2) by (simp add: operations_def)
  have m2: "''addMessage'' \<in> set (map fst ws)"
    unfolding ws(2) by (simp add: operations_def)
  have m3: "''concurrentReads'' \<in> set (map fst ws)"
    unfolding ws(2) by (simp add: operations_def)
  from winner_name_present[OF m1] obtain rd where rd: "winner_name ws ''readMessages'' = Inr rd" ..
  from winner_name_present[OF m2] obtain ad where ad: "winner_name ws ''addMessage'' = Inr ad" ..
  from winner_name_present[OF m3] obtain cr where cr: "winner_name ws ''concurrentReads'' = Inr cr" ..
  have "analyzeResults fl res =
          Inr [''Overall Best Performance: '' @ toUpperCase (way_key ow)
                 @ '' - Best for general use cases'',
               ''Best for Reading Messages: '' @ rd @ '' - Fastest chat loading'',
               ''Best for Adding Messages: '' @ ad @ '' - Fastest message creation'',
               ''Best for Concurrent Access: '' @ cr @ '' - Best for high-traffic scenarios'']"
    by (simp only: analyzeResults_def ws(1) assms(2) rd ad cr sum.case prod.case)
  then show ?thesis
    by (intro exI conjI) (assumption, simp only: list.sel)
qed

lemma nan_results_simps:
  "nan_results Way1 ''addMessage'' = Some (single_bundle 5)"
  "nan_results Way1 ''readMessages'' = Some (single_bundle 5)"
  "nan_results Way1 ''editMessage'' = Some (single_bundle 5)"
  "nan_results Way1 ''deleteMessage'' = Some (single_bundle 5)"
  "nan_results Way1 ''concurrentReads'' = Some (single_bundle 5)"
  "nan_results Way2 ''addMessage'' = Some failed_bundle"
  "nan_results Way2 ''readMessages'' = Some failed_bundle"
  "nan_results Way2 ''editMessage'' = Some failed_bundle"
  "nan_results Way2 ''deleteMessage'' = Some failed_bundle"
  "nan_results Way2 ''concurrentReads'' = Some failed_bundle"
  "nan_results Way3 ''addMessage'' = Some (single_bundle 3)"
  "nan_results Way3 ''readMessages'' = Some (single_bundle 3)"
  "nan_results Way3 ''editMessage'' = Some (single_bundle 3)"
  "nan_results Way3 ''deleteMessage'' = Some (single_bundle 3)"
  "nan_results Way3 ''concurrentReads'' = Some (single_bundle 3)"
  by (simp_all add: nan_results_def operations_def)

lemma failed_bundle_summarize: "failed_bundle = summarize fl []"
  by (simp add: failed_bundle_def summarize_Nil)

lemma nan_scores:
  "score fl nan_results Way1 = Num (fl (fl (fl (fl (fl (0 + 5) + 5) + 5) + 5) + 5))"
  "score fl nan_results Way2 = NaN"
  "score fl nan_results Way3 = Num (fl (fl (fl (fl (fl (0 + 3) + 3) + 3) + 3) + 3))"
  by (simp_all add: score_def operations_def nan_results_simps single_bundle_def
      failed_bundle_def)

section \<open>Claims on the report\<close>

text \<open>
  Claim C5. The comparator \<open>(a, b) => a.avg - b.avg\<close> of line 346 returns \<open>NaN\<close> as soon as
  one of the two averages is \<open>NaN\<close>, and \<open>sort\<close> takes a \<open>NaN\<close> for 0, that is for
  ``equal''. An average is \<open>NaN\<close> for a variant none of whose calls succeeded in the phase
  (claim C10). With the averages 5, \<open>NaN\<close> and 3 for the three variants, every comparison
  made involves the \<open>NaN\<close>, the array stays as it is, and the report lists the variant with
  the average 5 before the one with the average 3, whatever the rounding: not in
  ascending order, which the comment of line 345 (``lower is better'') promises.
\<close>

theorem ranking_with_NaN_average:
  "map_of (rankings (generateReport fl nan_results)) ''editMessage''
     = Some (ranking fl nan_results ''editMessage'')
   \<and> map (\<lambda>r. (way_r r, avg r)) (ranking fl nan_results ''editMessage'')
     = [(Way1, Num 5), (Way2, NaN), (Way3, Num 3)]"
  by (simp add: generateReport_def operations_def ranking_def report_rows_def ways_def
      nan_results_simps single_bundle_def failed_bundle_def Array_sort_def js_sub_def)

theorem ranking_with_NaN_average_witness:
  "map way_r (ranking demo_fl nan_results ''editMessage'') = [Way1, Way2, Way3]
   \<and> map avg (ranking demo_fl nan_results ''editMessage'') = [Num 5, NaN, Num 3]"
proof -
  let ?rows = "ranking demo_fl nan_results ''editMessage''"
  have e: "map (\<lambda>r. (way_r r, avg r)) ?rows = [(Way1, Num 5), (Way2, NaN), (Way3, Num 3)]"
    using ranking_with_NaN_average[of demo_fl] by (rule conjunct2)
  have "map way_r ?rows = map fst (map (\<lambda>r. (way_r r, avg r)) ?rows)"
    and "map avg ?rows = map snd (map (\<lambda>r. (way_r r, avg r)) ?rows)"
    by (simp_all add: comp_def)
  then show ?thesis
    unfolding e by simp
qed

text \<open>
  Claim C4. The overall winner is the first element of the scores sorted with the
  comparator \<open>(a, b) => a[1] - b[1]\<close> of line 395, which returns \<open>NaN\<close> when one of the two
  scores is \<open>NaN\<close>. With the averages 5, \<open>NaN\<close> and 3 in every operation (and a rounding
  that leaves the integers up to 25 as they are, as binary64 does), the scores are 25,
  \<open>NaN\<close> and 15, the array of scores stays as it is, and the first recommendation names
  the first variant as the overall best, although the sum of the third is smaller.
\<close>

theorem overall_winner_with_NaN_score:
  assumes "\<forall>k::nat. k \<le> 25 \<longrightarrow> fl (real k) = real k"
  shows "overallScores fl nan_results = [(Way1, Num 25), (Way2, NaN), (Way3, Num 15)]
       \<and> overallWinner fl nan_results = Inr Way1
       \<and> (\<exists>recs. analyzeResults fl nan_results = Inr recs
              \<and> hd recs = ''Overall Best Performance: '' @ toUpperCase (way_key Way1)
                             @ '' - Best for general use cases'')"
proof -
  have ex: "fl (real k) = real k" if "k \<le> 25" for k :: nat
    using assms that by simp
  have "fl (0 + 5) = 5" "fl (5 + 5) = 10" "fl (10 + 5) = 15" "fl (15 + 5) = 20"
    "fl (20 + 5) = 25" "fl (0 + 3) = 3" "fl (3 + 3) = 6" "fl (6 + 3) = 9" "fl (9 + 3) = 12"
    "fl (12 + 3) = 15"
    using ex[of 5] ex[of 10] ex[of 15] ex[of 20] ex[of 25] ex[of 3] ex[of 6] ex[of 9]
      ex[of 12]
    by simp_all
  then have sc: "score fl nan_results Way1 = Num 25" "score fl nan_results Way3 = Num 15"
    by (simp_all only: nan_scores)
  have scores: "overallScores fl nan_results = [(Way1, Num 25), (Way2, NaN), (Way3, Num 15)]"
    by (simp add: overallScores_def ways_def sc nan_scores(2))
  have ow: "overallWinner fl nan_results = Inr Way1"
    by (simp add: overallWinner_def scores Array_sort_def js_sub_def)
  have "\<forall>op \<in> set operations. \<exists>wy. nan_results wy op \<noteq> None"
    by (simp add: nan_results_def)
  from analyzeResults_recorded[OF this ow] scores ow show ?thesis
    by simp
qed

theorem overall_winner_with_NaN_score_witness:
  "overallScores demo_fl nan_results = [(Way1, Num 25), (Way2, NaN), (Way3, Num 15)]
   \<and> overallWinner demo_fl nan_results = Inr Way1"
  using overall_winner_with_NaN_score[of demo_fl] by (simp add: demo_fl_def)

section \<open>Claims on the storage engine\<close>

lemma delete_absent: "map_of al k = None \<Longrightarrow> AList.delete k al = al"
  by (simp add: map_of_eq_None_iff AList.delete_id)

lemma delete_fire_store:
  "fst (delete_fire store key b) = store\<lparr>data := AList.delete key (data store)\<rparr>"
  "snd (delete_fire store key b) = signalled b"
  by (simp_all add: delete_fire_def)

text \<open>
  Claim C8. \<open>deleteMessage\<close> returns a success result for every chat and message
  identifier; when the identifier is absent the store is left as it is, after the call
  the identifier is absent, and a second deletion of the same identifier succeeds again
  and leaves the store as the first left it. The engine's \<open>delete\<close> calls \<open>onsuccess\<close>
  whenever a handler is attached, and deleting a key twice is deleting it once.
\<close>

theorem deleteMessage_idempotent:
  "success (fst (spec_deleteMessage t0 t1 store c i)) = True
   \<and> (map_of (data store) (Str i) = None \<longrightarrow> snd (spec_deleteMessage t0 t1 store c i) = store)
   \<and> map_of (data (snd (spec_deleteMessage t0 t1 store c i))) (Str i) = None
   \<and> snd (spec_deleteMessage t2 t3 (snd (spec_deleteMessage t0 t1 store c i)) c i)
       = snd (spec_deleteMessage t0 t1 store c i)
   \<and> success (fst (spec_deleteMessage t2 t3 (snd (spec_deleteMessage t0 t1 store c i)) c i)) = True
   \<and> snd (delete_fire store key b) = signalled b
   \<and> fst (delete_fire (fst (delete_fire store key b)) key b') = fst (delete_fire store key b)"
  by (simp add: spec_deleteMessage_def delete_fire_def timing_wrapper_def signalled_def
      delete_absent AList.delete_idem AList.delete_conv)

theorem deleteMessage_idempotent_witness:
  "success (fst (spec_deleteMessage 10 12 demo_store ''chat-1'' ''zzz'')) = True
   \<and> map_of (data demo_store) (Str ''zzz'') = None
   \<and> snd (spec_deleteMessage 10 12 demo_store ''chat-1'' ''zzz'') = demo_store
   \<and> map (fst) (data (snd (spec_deleteMessage 10 12 demo_store ''chat-1'' ''a''))) = [Str ''b'']
   \<and> snd (spec_deleteMessage 13 15 (snd (spec_deleteMessage 10 12 demo_store ''chat-1'' ''a''))
             ''chat-1'' ''a'')
       = snd (spec_deleteMessage 10 12 demo_store ''chat-1'' ''a'')"
proof -
  have absent: "map_of (data demo_store) (Str ''zzz'') = None"
    by (simp add: demo_store_def)
  have keys: "map (fst) (data (snd (spec_deleteMessage 10 12 demo_store ''chat-1'' ''a''))) = [Str ''b'']"
    by (simp add: spec_deleteMessage_def delete_fire_def demo_store_def AList.delete_eq)
  show ?thesis
    using deleteMessage_idempotent[of 10 12 demo_store "''chat-1''" "''zzz''"]
      deleteMessage_idempotent[of 10 12 demo_store "''chat-1''" "''a''" 13 15]
      absent keys
    by simp
qed

lemma map_of_update_same: "map_of (AList.update k v al) k = Some v"
  by (simp add: AList.update_conv')

text \<open>
  Claim C9, amended. Opening is open-or-create: when no database of the name exists, an
  empty one is recorded at the requested version; an existing database is kept as it is,
  with the version it was created at, whatever version is requested. An attached upgrade
  handler is called on every open, before the success handler, also for an existing
  database opened at the same version.
\<close>

theorem open_runs_upgrade_handler_on_every_open:
  "snd (open_fire dbs dbName v (Some handler) onsuccess) = OnUpgradeNeeded # signalled onsuccess
   \<and> snd (open_fire dbs dbName v None onsuccess) = signalled onsuccess
   \<and> (map_of dbs dbName = None \<longrightarrow>
        map_of (fst (open_fire dbs dbName v None onsuccess)) dbName
          = Some \<lparr> name_db = dbName, version = v, objectStores = [] \<rparr>
        \<and> map_of (fst (open_fire dbs dbName v (Some handler) onsuccess)) dbName
          = Some (handler \<lparr> name_db = dbName, version = v, objectStores = [] \<rparr>))
   \<and> (\<forall>db. map_of dbs dbName = Some db \<longrightarrow>
        fst (open_fire dbs dbName v None onsuccess) = dbs
        \<and> map_of (fst (open_fire dbs dbName v (Some handler) onsuccess)) dbName
          = Some (handler db))"
  by (auto simp add: open_fire_def map_of_update_same)

theorem open_runs_upgrade_handler_on_every_open_witness:
  "map_of [] ''chatdb'' = (None :: database option)
   \<and> map_of (fst (open_fire [] ''chatdb'' 1 None True)) ''chatdb''
       = Some \<lparr> name_db = ''chatdb'', version = 1, objectStores = [] \<rparr>
   \<and> fst (open_fire [(''chatdb'', \<lparr> name_db = ''chatdb'', version = 1, objectStores = [] \<rparr>)]
             ''chatdb'' 2 None True)
       = [(''chatdb'', \<lparr> name_db = ''chatdb'', version = 1, objectStores = [] \<rparr>)]
   \<and> snd (open_fire [(''chatdb'', \<lparr> name_db = ''chatdb'', version = 1, objectStores = [] \<rparr>)]
             ''chatdb'' 2 (Some (createObjectStore ''messages'' (Some ''id''))) True)
       = [OnUpgradeNeeded, OnSuccess]"
  using open_runs_upgrade_handler_on_every_open[of "[]" "''chatdb''" 1
      "createObjectStore ''messages'' (Some ''id'')" True]
    open_runs_upgrade_handler_on_every_open[of
      "[(''chatdb'', \<lparr> name_db = ''chatdb'', version = 1, objectStores = [] \<rparr>)]" "''chatdb''" 2
      "createObjectStore ''messages'' (Some ''id'')" True]
  by (simp add: signalled_def)

text \<open>
  A database opened a second time at the same version, with an upgrade handler attached:
  the handler is called again.
\<close>

theorem reopen_same_version_counterexample:
  "map_of (fst (open_fire [] ''chatdb'' 1 (Some (createObjectStore ''messages'' (Some ''id''))) True))
          ''chatdb''
     = Some \<lparr> name_db = ''chatdb'', version = 1,
              objectStores = [(''messages'', \<lparr> name_s = ''messages'', keyPath = Some ''id'',
                                               data = [], indexes = [] \<rparr>)] \<rparr>
   \<and> snd (open_fire
            (fst (open_fire [] ''chatdb'' 1 (Some (createObjectStore ''messages'' (Some ''id''))) True))
            ''chatdb'' 1 (Some (createObjectStore ''messages'' (Some ''id''))) True)
     = [OnUpgradeNeeded, OnSuccess]"
  by (simp add: open_fire_def createObjectStore_def signalled_def)

section \<open>The full run in closed form\<close>

lemma make_message_frame:
  "trace (snd (make_message E i j w)) = trace w"
  "stores (snd (make_message E i j w)) = stores w"
  "results (snd (make_message E i j w)) = results w"
  "storage_stats (snd (make_message E i j w)) = storage_stats w"
  by (simp_all add: make_message_def Let_def)

lemma fold_push_message_frame:
  "length (fst (fold (push_message E i) js (ms, w))) = length ms + length js
   \<and> trace (snd (fold (push_message E i) js (ms, w))) = trace w
   \<and> stores (snd (fold (push_message E i) js (ms, w))) = stores w
   \<and> results (snd (fold (push_message E i) js (ms, w))) = results w
   \<and> storage_stats (snd (fold (push_message E i) js (ms, w))) = storage_stats w"
proof (induction js arbitrary: ms w)
  case Nil
  show ?case by simp
next
  case (Cons j js)
  have step: "fold (push_message E i) (j # js) (ms, w) =
                fold (push_message E i) js (ms @ [fst (make_message E i j w)], snd (make_message E i j w))"
    by (simp add: push_message_def split_beta)
  show ?case
    unfolding step using Cons.IH[of "ms @ [fst (make_message E i j w)]" "snd (make_message E i j w)"]
    by (simp add: make_message_frame)
qed

lemma fold_push_chat_frame:
  "length (fst (fold (push_chat E mpc) js (td, w))) = length td + length js
   \<and> (\<forall>c \<in> set (fst (fold (push_chat E mpc) js (td, w))).
         c \<in> set td \<or> length (messages c) = nat mpc)
   \<and> trace (snd (fold (push_chat E mpc) js (td, w))) = trace w
   \<and> stores (snd (fold (push_chat E mpc) js (td, w))) = stores w
   \<and> results (snd (fold (push_chat E mpc) js (td, w))) = results w
   \<and> storage_stats (snd (fold (push_chat E mpc) js (td, w))) = storage_stats w"
proof (induction js arbitrary: td w)
  case Nil
  show ?case by simp
next
  case (Cons j js)
  let ?inner = "fold (push_message E j) [0..<nat mpc] ([], w)"
  let ?c = "\<lparr> chatId = ''chat-'' @ show_nat (j + 1), messages = fst ?inner \<rparr>"
  have step: "fold (push_chat E mpc) (j # js) (td, w) =
                fold (push_chat E mpc) js (td @ [?c], snd ?inner)"
    by (simp add: push_chat_def split_beta)
  note inner = fold_push_message_frame[of E j "[0..<nat mpc]" "[]" w]
  have lc: "length (messages ?c) = nat mpc"
    using inner by simp
  show ?case
    unfolding step using Cons.IH[of "td @ [?c]" "snd ?inner"] inner lc
    by auto
qed

lemma generateTestData_frame:
  "length (fst (generateTestData E n m w)) = nat n"
  "\<forall>c \<in> set (fst (generateTestData E n m w)). length (messages c) = nat m"
  "trace (snd (generateTestData E n m w)) = trace w"
  "stores (snd (generateTestData E n m w)) = stores w"
  "results (snd (generateTestData E n m w)) = results w"
  "storage_stats (snd (generateTestData E n m w)) = storage_stats w"
  using fold_push_chat_frame[of E m "[0..<nat n]" "[]" w]
  by (simp_all add: generateTestData_def)

lemma phases_entered_simps [simp]:
  "phases_entered [] = []"
  "phases_entered (e # evs) = event_phase e @ phases_entered evs"
  "phases_entered (xs @ ys) = phases_entered xs @ phases_entered ys"
  by (simp_all add: phases_entered_def)

lemma methods_called_simps [simp]:
  "methods_called wy [] = []"
  "methods_called wy (e # evs) = event_method wy e @ methods_called wy evs"
  "methods_called wy (xs @ ys) = methods_called wy xs @ methods_called wy ys"
  by (simp_all add: methods_called_def)

lemma phases_entered_Invoke: "phases_entered (map2 (Invoke wy) reqs rs) = []"
  by (induction reqs rs rule: list_induct2') simp_all

lemma methods_called_Invoke:
  "length rs = length reqs \<Longrightarrow>
   methods_called wy (map2 (Invoke wy') reqs rs) = (if wy' = wy then map request_method reqs else [])"
  by (induction reqs rs rule: list_induct2') simp_all

lemma phases_entered_Issue: "phases_entered (map (\<lambda>i. Issue wy i (f i)) js) = []"
  by (induction js) simp_all

lemma phases_entered_Settle: "phases_entered (map (\<lambda>k. Settle wy k (f k)) ks) = []"
  by (induction ks) simp_all

lemma methods_called_Issue:
  "methods_called wy (map (\<lambda>i. Issue wy' i (f i)) js)
     = (if wy' = wy then map (\<lambda>i. request_method (f i)) js else [])"
  by (induction js) simp_all

lemma methods_called_Settle: "methods_called wy (map (\<lambda>k. Settle wy' k (f k)) ks) = []"
  by (induction ks) simp_all

lemma all_ways: "list_all P ways \<longleftrightarrow> (\<forall>wy. P wy)"
proof
  assume "list_all P ways"
  then have "P Way1" "P Way2" "P Way3" by (simp_all add: ways_def)
  then show "\<forall>wy. P wy" by (metis way.exhaust)
next
  assume "\<forall>wy. P wy"
  then show "list_all P ways" by (simp add: ways_def)
qed

lemma sequential_phase_body:
  "\<exists>body. trace (fold (phase_way fl A key plan) ways (log_event (Enter p) w))
             = trace w @ Enter p # body
         \<and> phase_body plan body"
proof -
  let ?body = "concat (map (\<lambda>wy. map2 (Invoke wy) plan (replies (A wy) plan (stores w wy))) ways)"
  have "trace (fold (phase_way fl A key plan) ways (log_event (Enter p) w)) = trace w @ Enter p # ?body"
    by (simp add: phase_fold_trace)
  moreover have "phase_body plan ?body"
    unfolding phase_body_def all_ways
  proof (intro conjI allI)
    show "phases_entered ?body = []"
      by (simp add: ways_def phases_entered_Invoke)
    show "requested wy ?body = plan" for wy
      by (cases wy) (simp_all add: ways_def requested_Invoke)
    show "methods_called wy ?body = map request_method plan" for wy
      by (cases wy) (simp_all add: ways_def methods_called_Invoke)
  qed
  ultimately show ?thesis by blast
qed

lemma concurrent_phase_body:
  assumes "\<forall>wy. settles_all (nat n) (sched wy)"
  shows "\<exists>body. trace (fold (concurrent_way_done fl A sched td n) ways
                        (log_event (Enter P_ConcurrentRead) w))
             = trace w @ Enter P_ConcurrentRead # body
         \<and> phase_body (concurrent_plan td n) body"
proof -
  let ?body = "concat (map (\<lambda>wy.
        map (\<lambda>i. Issue wy i (read_request td i)) [0..<nat n]
        @ map (\<lambda>k. Settle wy k (replies (A wy) (concurrent_plan td n) (stores w wy) ! k))
              (effective (nat n) [] (sched wy))) ways)"
  have "trace (fold (concurrent_way_done fl A sched td n) ways (log_event (Enter P_ConcurrentRead) w))
          = trace w @ Enter P_ConcurrentRead # ?body"
    by (simp add: concurrent_fold_trace)
  moreover have "phase_body (concurrent_plan td n) ?body"
    unfolding phase_body_def all_ways
  proof (intro conjI allI)
    show "phases_entered ?body = []"
      by (simp add: ways_def phases_entered_Issue phases_entered_Settle)
    show "requested wy ?body = concurrent_plan td n" for wy
      by (cases wy)
        (simp_all add: ways_def requested_Issue requested_Settle concurrent_plan_def)
    show "methods_called wy ?body = map request_method (concurrent_plan td n)" for wy
      by (cases wy)
        (simp_all add: ways_def methods_called_Issue methods_called_Settle concurrent_plan_def
          comp_def)
  qed
  ultimately show ?thesis by blast
qed

lemma getStorageStats_trace:
  "trace (getStorageStats A w) = trace w @ [Enter P_Stats, GetStats Way1, GetStats Way2, GetStats Way3]"
  "results (getStorageStats A w) = results w"
  by (simp_all add: getStorageStats_def ways_def split_beta Let_def)

lemma cleanup_trace:
  "trace (cleanup A w) = trace w @ [Enter P_Cleanup, Close Way1, Close Way2, Close Way3]"
  by (simp add: cleanup_def ways_def)

lemma initialize_benchmark_closed:
  assumes "\<forall>wy. \<exists>st'. initialize (A wy) (stores w wy) = Inr st'"
  shows "\<exists>w1. initialize_benchmark A w = Done w1
           \<and> trace w1 = trace w @ [Enter P_Initialize, Init Way1, Init Way2, Init Way3]
           \<and> results w1 = results w"
proof -
  from assms obtain s1 s2 s3 where
    "initialize (A Way1) (stores w Way1) = Inr s1"
    "initialize (A Way2) (stores w Way2) = Inr s2"
    "initialize (A Way3) (stores w Way3) = Inr s3"
    by blast
  then show ?thesis
    by (simp add: initialize_benchmark_def ways_def Let_def)
qed

lemma overallWinner_total: "\<exists>ow. overallWinner fl res = Inr ow"
proof -
  have "length (Array_sort (\<lambda>a b. js_sub fl (snd a) (snd b)) (overallScores fl res)) = 3"
    by (simp add: overallScores_def ways_def)
  then obtain e rest where "Array_sort (\<lambda>a b. js_sub fl (snd a) (snd b)) (overallScores fl res) = e # rest"
    by (cases "Array_sort (\<lambda>a b. js_sub fl (snd a) (snd b)) (overallScores fl res)") auto
  then show ?thesis
    by (simp add: overallWinner_def)
qed

lemma report_of_recorded:
  assumes "\<forall>op \<in> set operations. \<exists>wy. res wy op \<noteq> None"
  shows "\<exists>recs. recommendations (generateReport fl res) = Inr recs"
proof -
  obtain ow where "overallWinner fl res = Inr ow"
    using overallWinner_total by blast
  with assms obtain recs where "analyzeResults fl res = Inr recs"
    using analyzeResults_recorded by blast
  then show ?thesis
    by (simp add: generateReport_def)
qed

lemma cleanup_results: "results (cleanup A w) = results w"
  by (simp add: cleanup_def ways_def)

lemma runFullBenchmark_closed:
  assumes "0 < numChats" and "\<forall>wy. settles_all (nat 50) (sched wy)"
      and gen: "generateTestData E numChats m w = (td, w0)"
  shows "\<exists>w1 w2 w3 w4 w5 b1 b2 b3 b4 b5.
           runFullBenchmark fl A E sched numChats m w
             = Done (log_event (Enter P_Report) (getStorageStats A w5))
         \<and> timed_phase fl A sched td 50 ''addMessage'' w0 = Done w1
         \<and> timed_phase fl A sched td 50 ''readMessages'' w1 = Done w2
         \<and> timed_phase fl A sched td 50 ''editMessage'' w2 = Done w3
         \<and> timed_phase fl A sched td 50 ''deleteMessage'' w3 = Done w4
         \<and> timed_phase fl A sched td 50 ''concurrentReads'' w4 = Done w5
         \<and> trace w5 = trace w @ Enter P_Add # b1 @ Enter P_Read # b2 @ Enter P_Edit # b3
                       @ Enter P_Delete # b4 @ Enter P_ConcurrentRead # b5
         \<and> phase_body (add_plan td) b1 \<and> phase_body (read_plan td) b2
         \<and> phase_body (edit_plan td) b3 \<and> phase_body (delete_plan td) b4
         \<and> phase_body (concurrent_plan td 50) b5"
proof -
  have td_def: "td = fst (generateTestData E numChats m w)"
    and w0_def: "w0 = snd (generateTestData E numChats m w)"
    using gen by simp_all
  define w1 where "w1 = benchmarkAddMessages fl A td w0"
  define w2 where "w2 = benchmarkReadMessages fl A td w1"
  define w3 where "w3 = benchmarkEditMessages fl A td w2"
  define w4 where "w4 = benchmarkDeleteMessages fl A td w3"
  define w5 where "w5 = fold (concurrent_way_done fl A sched td 50) ways
                          (log_event (Enter P_ConcurrentRead) w4)"
  define w7 where "w7 = log_event (Enter P_Report) (getStorageStats A w5)"
  have len: "length td = nat numChats"
    and t0: "trace w0 = trace w"
    unfolding td_def w0_def by (simp_all add: generateTestData_frame)
  have ne: "\<not> (0 < (50::int) \<and> td = [])"
    using len assms(1) by auto
  have conc: "benchmarkConcurrentReads fl A sched td 50 w4 = Done w5"
    unfolding w5_def using assms(2) ne by (intro concurrent_phase_closed) auto
  obtain b1 where b1: "trace w1 = trace w0 @ Enter P_Add # b1" "phase_body (add_plan td) b1"
    unfolding w1_def add_phase using sequential_phase_body by blast
  obtain b2 where b2: "trace w2 = trace w1 @ Enter P_Read # b2" "phase_body (read_plan td) b2"
    unfolding w2_def read_phase using sequential_phase_body by blast
  obtain b3 where b3: "trace w3 = trace w2 @ Enter P_Edit # b3" "phase_body (edit_plan td) b3"
    unfolding w3_def edit_phase using sequential_phase_body by blast
  obtain b4 where b4: "trace w4 = trace w3 @ Enter P_Delete # b4" "phase_body (delete_plan td) b4"
    unfolding w4_def delete_phase using sequential_phase_body by blast
  obtain b5 where b5: "trace w5 = trace w4 @ Enter P_ConcurrentRead # b5"
      "phase_body (concurrent_plan td 50) b5"
    unfolding w5_def using concurrent_phase_body[OF assms(2)] by blast
  have r1: "results w1 wy ''addMessage'' \<noteq> None" for wy
    unfolding w1_def add_phase by (simp add: phase_fold_results)
  have r2: "results w2 wy ''addMessage'' \<noteq> None \<and> results w2 wy ''readMessages'' \<noteq> None" for wy
    unfolding w2_def read_phase using r1 by (simp add: phase_fold_results)
  have r3: "results w3 wy ''addMessage'' \<noteq> None \<and> results w3 wy ''readMessages'' \<noteq> None
            \<and> results w3 wy ''editMessage'' \<noteq> None" for wy
    unfolding w3_def edit_phase using r2 by (simp add: phase_fold_results)
  have r4: "results w4 wy ''addMessage'' \<noteq> None \<and> results w4 wy ''readMessages'' \<noteq> None
            \<and> results w4 wy ''editMessage'' \<noteq> None \<and> results w4 wy ''deleteMessage'' \<noteq> None" for wy
    unfolding w4_def delete_phase using r3 by (simp add: phase_fold_results)
  have r5: "results w5 wy ''addMessage'' \<noteq> None \<and> results w5 wy ''readMessages'' \<noteq> None
            \<and> results w5 wy ''editMessage'' \<noteq> None \<and> results w5 wy ''deleteMessage'' \<noteq> None
            \<and> results w5 wy ''concurrentReads'' \<noteq> None" for wy
    unfolding w5_def using r4 by (simp add: concurrent_fold_results)
  have r7: "results w7 = results w5"
    unfolding w7_def by (simp add: getStorageStats_trace)
  have "\<forall>op \<in> set operations. \<exists>wy. results w7 wy op \<noteq> None"
    unfolding r7 using r5 by (simp add: operations_def)
  then obtain recs where recs: "recommendations (generateReport fl (results w7)) = Inr recs"
    using report_of_recorded by blast
  from recs have recs': "recommendations (generateReport fl (results (getStorageStats A w5))) = Inr recs"
    by (simp add: w7_def)
  have rn: "runFullBenchmark fl A E sched numChats m w
              = Done (log_event (Enter P_Report) (getStorageStats A w5))"
    unfolding runFullBenchmark_def gen Let_def prod.case
    unfolding w1_def[symmetric] w2_def[symmetric] w3_def[symmetric] w4_def[symmetric]
    by (simp add: conc recs')
  have p1: "timed_phase fl A sched td 50 ''addMessage'' w0 = Done w1"
    and p2: "timed_phase fl A sched td 50 ''readMessages'' w1 = Done w2"
    and p3: "timed_phase fl A sched td 50 ''editMessage'' w2 = Done w3"
    and p4: "timed_phase fl A sched td 50 ''deleteMessage'' w3 = Done w4"
    by (simp_all add: timed_phase_simps w1_def w2_def w3_def w4_def)
  have p5: "timed_phase fl A sched td 50 ''concurrentReads'' w4 = Done w5"
    by (simp add: timed_phase_simps conc)
  have tr: "trace w5 = trace w @ Enter P_Add # b1 @ Enter P_Read # b2 @ Enter P_Edit # b3
                       @ Enter P_Delete # b4 @ Enter P_ConcurrentRead # b5"
    by (simp add: b5(1) b4(1) b3(1) b2(1) b1(1) t0)
  show ?thesis
    by (intro exI conjI) (rule rn p1 p2 p3 p4 p5 tr b1(2) b2(2) b3(2) b4(2) b5(2))+
qed

lemma add_event_call:
  "event_phase e = [] \<Longrightarrow> add_event (before @ [(p, evs)]) e = before @ [(p, evs @ [e])]"
  by (cases e) (simp_all add: add_event_def)

lemma foldl_add_event_body:
  "phases_entered body = [] \<Longrightarrow>
   foldl add_event (before @ [(p, evs)]) body = before @ [(p, evs @ body)]"
proof (induction body arbitrary: evs)
  case Nil
  show ?case by simp
next
  case (Cons e body)
  then have e: "event_phase e = []" and rest: "phases_entered body = []"
    by simp_all
  show ?case
    using Cons.IH[OF rest, of "evs @ [e]"] by (simp add: add_event_call[OF e])
qed

lemma segments_step:
  assumes "phases_entered body = []"
  shows "foldl add_event segs (Enter p # body @ rest) = foldl add_event (segs @ [(p, body)]) rest"
proof -
  have "foldl add_event segs (Enter p # body @ rest)
          = foldl add_event (foldl add_event (segs @ [(p, [])]) body) rest"
    by (simp add: add_event_def)
  also have "foldl add_event (segs @ [(p, [])]) body = segs @ [(p, body)]"
    using foldl_add_event_body[OF assms, of segs p "[]"] by simp
  finally show ?thesis .
qed

lemma run_closed:
  assumes "\<forall>wy. \<exists>st'. initialize (A wy) (stores w wy) = Inr st'"
      and "\<forall>wy. settles_all (nat 50) (sched wy)"
  shows "\<exists>w1 w2 w3 w4 w5 b1 b2 b3 b4 b5 w'.
           run fl A E sched w = Done w'
         \<and> results w' = results w5
         \<and> timed_phase fl A sched (run_test_data A E w) 50 ''addMessage'' (run_start A E w) = Done w1
         \<and> timed_phase fl A sched (run_test_data A E w) 50 ''readMessages'' w1 = Done w2
         \<and> timed_phase fl A sched (run_test_data A E w) 50 ''editMessage'' w2 = Done w3
         \<and> timed_phase fl A sched (run_test_data A E w) 50 ''deleteMessage'' w3 = Done w4
         \<and> timed_phase fl A sched (run_test_data A E w) 50 ''concurrentReads'' w4 = Done w5
         \<and> since w w' =
             Enter P_Initialize # [Init Way1, Init Way2, Init Way3]
             @ Enter P_Add # b1 @ Enter P_Read # b2 @ Enter P_Edit # b3
             @ Enter P_Delete # b4 @ Enter P_ConcurrentRead # b5
             @ Enter P_Stats # [GetStats Way1, GetStats Way2, GetStats Way3]
             @ Enter P_Report # []
             @ Enter P_Cleanup # [Close Way1, Close Way2, Close Way3] @ []
         \<and> phase_body (add_plan (run_test_data A E w)) b1
         \<and> phase_body (read_plan (run_test_data A E w)) b2
         \<and> phase_body (edit_plan (run_test_data A E w)) b3
         \<and> phase_body (delete_plan (run_test_data A E w)) b4
         \<and> phase_body (concurrent_plan (run_test_data A E w) 50) b5"
proof -
  let ?td = "run_test_data A E w"
  from initialize_benchmark_closed[OF assms(1)] obtain wi where
    wi: "initialize_benchmark A w = Done wi"
        "trace wi = trace w @ [Enter P_Initialize, Init Way1, Init Way2, Init Way3]"
    by blast
  have gen: "generateTestData E 10 100 wi = (?td, run_start A E w)"
    by (simp add: run_test_data_def run_start_def wi(1))
  have pos: "0 < (10::int)" by simp
  from runFullBenchmark_closed[OF pos assms(2) gen, where fl=fl and A=A]
  obtain w1 w2 w3 w4 w5 b1 b2 b3 b4 b5 where
    rn: "runFullBenchmark fl A E sched 10 100 wi
           = Done (log_event (Enter P_Report) (getStorageStats A w5))"
    and ph: "timed_phase fl A sched ?td 50 ''addMessage'' (run_start A E w) = Done w1"
      "timed_phase fl A sched ?td 50 ''readMessages'' w1 = Done w2"
      "timed_phase fl A sched ?td 50 ''editMessage'' w2 = Done w3"
      "timed_phase fl A sched ?td 50 ''deleteMessage'' w3 = Done w4"
      "timed_phase fl A sched ?td 50 ''concurrentReads'' w4 = Done w5"
    and tr: "trace w5 = trace wi @ Enter P_Add # b1 @ Enter P_Read # b2 @ Enter P_Edit # b3
                       @ Enter P_Delete # b4 @ Enter P_ConcurrentRead # b5"
    and bodies: "phase_body (add_plan ?td) b1" "phase_body (read_plan ?td) b2"
      "phase_body (edit_plan ?td) b3" "phase_body (delete_plan ?td) b4"
      "phase_body (concurrent_plan ?td 50) b5"
    by (elim exE conjE)
  let ?w7 = "log_event (Enter P_Report) (getStorageStats A w5)"
  have r: "run fl A E sched w = Done (cleanup A ?w7)"
    by (simp add: run_def wi(1) rn)
  have rs: "results (cleanup A ?w7) = results w5"
    by (simp add: cleanup_results getStorageStats_trace)
  have s: "since w (cleanup A ?w7) =
             Enter P_Initialize # [Init Way1, Init Way2, Init Way3]
             @ Enter P_Add # b1 @ Enter P_Read # b2 @ Enter P_Edit # b3
             @ Enter P_Delete # b4 @ Enter P_ConcurrentRead # b5
             @ Enter P_Stats # [GetStats Way1, GetStats Way2, GetStats Way3]
             @ Enter P_Report # []
             @ Enter P_Cleanup # [Close Way1, Close Way2, Close Way3] @ []"
    by (rule since_append) (simp add: cleanup_trace getStorageStats_trace tr wi(2))
  show ?thesis
    by (intro exI conjI) (rule r rs ph s bodies)+
qed

lemma run_test_data_shape:
  "length (run_test_data A E w) = 10"
  "\<forall>c \<in> set (run_test_data A E w). length (messages c) = 100"
  by (simp_all add: run_test_data_def generateTestData_frame)

lemma methods_of_plan:
  assumes "\<forall>c \<in> set td. length (h c) = k"
      and "\<And>c x. request_method (f c x) = nm"
  shows "map request_method (concat (map (\<lambda>c. map (f c) (h c)) td)) = replicate (length td * k) nm"
  using assms(1)
proof (induction td)
  case Nil
  show ?case by simp
next
  case (Cons c td)
  then have "map request_method (map (f c) (h c)) = replicate k nm"
    by (simp add: assms(2) map_replicate_const comp_def)
  with Cons show ?case
    by (simp add: replicate_add)
qed

lemma plan_methods:
  assumes "length td = 10" and "\<forall>c \<in> set td. length (messages c) = 100"
  shows "map request_method (add_plan td) = replicate 1000 ''addMessage''"
    and "map request_method (read_plan td) = replicate 10 ''getChatMessages''"
    and "map request_method (edit_plan td) = replicate 100 ''editMessage''"
    and "map request_method (delete_plan td) = replicate 50 ''deleteMessage''"
    and "map request_method (concurrent_plan td 50) = replicate 50 ''getChatMessages''"
proof -
  show "map request_method (add_plan td) = replicate 1000 ''addMessage''"
    unfolding add_plan_def
    using methods_of_plan[of td messages 100 "\<lambda>c m. AddMessage (chatId c) m" "''addMessage''"] assms
    by simp
  show "map request_method (read_plan td) = replicate 10 ''getChatMessages''"
    unfolding read_plan_def using assms(1)
    by (simp add: map_replicate_const comp_def)
  show "map request_method (edit_plan td) = replicate 100 ''editMessage''"
    unfolding edit_plan_def
    using methods_of_plan[of td "\<lambda>c. [0..<min 10 (length (messages c))]" 10
        "\<lambda>c i. EditMessage (chatId c) (id_m (messages c ! i)) (''EDITED: '' @ content (messages c ! i))"
        "''editMessage''"] assms
    by simp
  show "map request_method (delete_plan td) = replicate 50 ''deleteMessage''"
    unfolding delete_plan_def
    using methods_of_plan[of td "\<lambda>c. rev [length (messages c) - 5..<length (messages c)]" 5
        "\<lambda>c i. DeleteMessage (chatId c) (id_m (messages c ! i))" "''deleteMessage''"] assms
    by simp
  show "map request_method (concurrent_plan td 50) = replicate 50 ''getChatMessages''"
    unfolding concurrent_plan_def read_request_def
    by (simp add: map_replicate_const comp_def)
qed

lemma phase_body_D:
  assumes "phase_body plan body"
  shows "phases_entered body = []"
    and "requested wy body = plan"
    and "methods_called wy body = map request_method plan"
  using assms unfolding phase_body_def all_ways by simp_all

lemma run_segments:
  assumes "\<forall>wy. \<exists>st'. initialize (A wy) (stores w wy) = Inr st'"
      and "\<forall>wy. settles_all (nat 50) (sched wy)"
  shows "\<exists>w'. run fl A E sched w = Done w'
           \<and> map fst (segments (since w w')) =
               [P_Initialize, P_Add, P_Read, P_Edit, P_Delete, P_ConcurrentRead,
                P_Stats, P_Report, P_Cleanup]
           \<and> (\<forall>wy. map (\<lambda>seg. requested wy (snd seg)) (segments (since w w')) =
                 [[], add_plan (run_test_data A E w), read_plan (run_test_data A E w),
                  edit_plan (run_test_data A E w), delete_plan (run_test_data A E w),
                  concurrent_plan (run_test_data A E w) 50, [], [], []])
           \<and> (\<forall>wy. map (\<lambda>seg. methods_called wy (snd seg)) (segments (since w w')) =
                 [[''initialize''], replicate 1000 ''addMessage'',
                  replicate 10 ''getChatMessages'', replicate 100 ''editMessage'',
                  replicate 50 ''deleteMessage'', replicate 50 ''getChatMessages'',
                  [''getStats''], [], [''close'']])
           \<and> (\<forall>wy. methods_called wy (since w w') =
                 ''initialize'' # replicate 1000 ''addMessage''
                 @ replicate 10 ''getChatMessages'' @ replicate 100 ''editMessage''
                 @ replicate 50 ''deleteMessage'' @ replicate 50 ''getChatMessages''
                 @ [''getStats'', ''close''])"
proof -
  let ?td = "run_test_data A E w"
  from run_closed[OF assms, where fl=fl and E=E] obtain w' b1 b2 b3 b4 b5 where
    rn: "run fl A E sched w = Done w'"
    and s: "since w w' =
             Enter P_Initialize # [Init Way1, Init Way2, Init Way3]
             @ Enter P_Add # b1 @ Enter P_Read # b2 @ Enter P_Edit # b3
             @ Enter P_Delete # b4 @ Enter P_ConcurrentRead # b5
             @ Enter P_Stats # [GetStats Way1, GetStats Way2, GetStats Way3]
             @ Enter P_Report # []
             @ Enter P_Cleanup # [Close Way1, Close Way2, Close Way3] @ []"
    and bodies: "phase_body (add_plan ?td) b1" "phase_body (read_plan ?td) b2"
      "phase_body (edit_plan ?td) b3" "phase_body (delete_plan ?td) b4"
      "phase_body (concurrent_plan ?td 50) b5"
    by (elim exE conjE)
  note ne = phase_body_D(1)[OF bodies(1)] phase_body_D(1)[OF bodies(2)]
    phase_body_D(1)[OF bodies(3)] phase_body_D(1)[OF bodies(4)] phase_body_D(1)[OF bodies(5)]
  have e0: "phases_entered [Init Way1, Init Way2, Init Way3] = []"
    and e6: "phases_entered [GetStats Way1, GetStats Way2, GetStats Way3] = []"
    and e7: "phases_entered [] = []"
    and e8: "phases_entered [Close Way1, Close Way2, Close Way3] = []"
    by simp_all
  let ?i = "[Init Way1, Init Way2, Init Way3]"
  let ?g = "[GetStats Way1, GetStats Way2, GetStats Way3]"
  let ?c = "[Close Way1, Close Way2, Close Way3]"
  let ?r8 = "Enter P_Cleanup # ?c @ []"
  let ?r7 = "Enter P_Report # [] @ ?r8"
  let ?r6 = "Enter P_Stats # ?g @ ?r7"
  let ?r5 = "Enter P_ConcurrentRead # b5 @ ?r6"
  let ?r4 = "Enter P_Delete # b4 @ ?r5"
  let ?r3 = "Enter P_Edit # b3 @ ?r4"
  let ?r2 = "Enter P_Read # b2 @ ?r3"
  let ?r1 = "Enter P_Add # b1 @ ?r2"
  have "segments (since w w') = foldl add_event [] (Enter P_Initialize # ?i @ ?r1)"
    unfolding s segments_def ..
  also have "\<dots> = foldl add_event ([] @ [(P_Initialize, ?i)]) ?r1"
    by (rule segments_step[OF e0])
  also have "\<dots> = foldl add_event (([] @ [(P_Initialize, ?i)]) @ [(P_Add, b1)]) ?r2"
    by (rule segments_step[OF ne(1)])
  also have "\<dots> = foldl add_event ((([] @ [(P_Initialize, ?i)]) @ [(P_Add, b1)])
                        @ [(P_Read, b2)]) ?r3"
    by (rule segments_step[OF ne(2)])
  also have "\<dots> = foldl add_event (((([] @ [(P_Initialize, ?i)]) @ [(P_Add, b1)])
                        @ [(P_Read, b2)]) @ [(P_Edit, b3)]) ?r4"
    by (rule segments_step[OF ne(3)])
  also have "\<dots> = foldl add_event ((((([] @ [(P_Initialize, ?i)]) @ [(P_Add, b1)])
                        @ [(P_Read, b2)]) @ [(P_Edit, b3)]) @ [(P_Delete, b4)]) ?r5"
    by (rule segments_step[OF ne(4)])
  also have "\<dots> = foldl add_event (((((([] @ [(P_Initialize, ?i)]) @ [(P_Add, b1)])
                        @ [(P_Read, b2)]) @ [(P_Edit, b3)]) @ [(P_Delete, b4)])
                        @ [(P_ConcurrentRead, b5)]) ?r6"
    by (rule segments_step[OF ne(5)])
  also have "\<dots> = foldl add_event ((((((([] @ [(P_Initialize, ?i)]) @ [(P_Add, b1)])
                        @ [(P_Read, b2)]) @ [(P_Edit, b3)]) @ [(P_Delete, b4)])
                        @ [(P_ConcurrentRead, b5)]) @ [(P_Stats, ?g)]) ?r7"
    by (rule segments_step[OF e6])
  also have "\<dots> = foldl add_event (((((((([] @ [(P_Initialize, ?i)]) @ [(P_Add, b1)])
                        @ [(P_Read, b2)]) @ [(P_Edit, b3)]) @ [(P_Delete, b4)])
                        @ [(P_ConcurrentRead, b5)]) @ [(P_Stats, ?g)]) @ [(P_Report, [])]) ?r8"
    by (rule segments_step[OF e7])
  also have "\<dots> = foldl add_event ((((((((([] @ [(P_Initialize, ?i)]) @ [(P_Add, b1)])
                        @ [(P_Read, b2)]) @ [(P_Edit, b3)]) @ [(P_Delete, b4)])
                        @ [(P_ConcurrentRead, b5)]) @ [(P_Stats, ?g)]) @ [(P_Report, [])])
                        @ [(P_Cleanup, ?c)]) []"
    by (rule segments_step[OF e8])
  finally have seg: "segments (since w w') =
               [(P_Initialize, [Init Way1, Init Way2, Init Way3]), (P_Add, b1), (P_Read, b2),
                (P_Edit, b3), (P_Delete, b4), (P_ConcurrentRead, b5),
                (P_Stats, [GetStats Way1, GetStats Way2, GetStats Way3]), (P_Report, []),
                (P_Cleanup, [Close Way1, Close Way2, Close Way3])]"
    by simp
  note pm = plan_methods[OF run_test_data_shape, where A1=A and E1=E and w1=w]
  have 1: "map fst (segments (since w w')) =
               [P_Initialize, P_Add, P_Read, P_Edit, P_Delete, P_ConcurrentRead,
                P_Stats, P_Report, P_Cleanup]"
    unfolding seg by simp
  have 2: "map (\<lambda>seg. requested wy (snd seg)) (segments (since w w')) =
                 [[], add_plan (run_test_data A E w), read_plan (run_test_data A E w),
                  edit_plan (run_test_data A E w), delete_plan (run_test_data A E w),
                  concurrent_plan (run_test_data A E w) 50, [], [], []]" for wy
    unfolding seg
    by (cases wy) (simp_all add: phase_body_D(2)[OF bodies(1)] phase_body_D(2)[OF bodies(2)]
        phase_body_D(2)[OF bodies(3)] phase_body_D(2)[OF bodies(4)] phase_body_D(2)[OF bodies(5)])
  have 3: "map (\<lambda>seg. methods_called wy (snd seg)) (segments (since w w')) =
                 [[''initialize''], replicate 1000 ''addMessage'',
                  replicate 10 ''getChatMessages'', replicate 100 ''editMessage'',
                  replicate 50 ''deleteMessage'', replicate 50 ''getChatMessages'',
                  [''getStats''], [], [''close'']]" for wy
    unfolding seg
    by (cases wy) (simp_all add: phase_body_D(3)[OF bodies(1)] phase_body_D(3)[OF bodies(2)]
        phase_body_D(3)[OF bodies(3)] phase_body_D(3)[OF bodies(4)] phase_body_D(3)[OF bodies(5)]
        pm)
  have 4: "methods_called wy (since w w') =
                 ''initialize'' # replicate 1000 ''addMessage''
                 @ replicate 10 ''getChatMessages'' @ replicate 100 ''editMessage''
                 @ replicate 50 ''deleteMessage'' @ replicate 50 ''getChatMessages''
                 @ [''getStats'', ''close'']" for wy
    unfolding s
    by (cases wy) (simp_all add: phase_body_D(3)[OF bodies(1)] phase_body_D(3)[OF bodies(2)]
        phase_body_D(3)[OF bodies(3)] phase_body_D(3)[OF bodies(4)] phase_body_D(3)[OF bodies(5)]
        pm)
  show ?thesis
    by (intro exI[of _ w'] conjI allI) (rule rn 1 2 3 4)+
qed

section \<open>Claims on the run\<close>


lemma demo_run_hyps:
  "\<forall>wy. \<exists>st'. initialize (demo_adapters wy) (stores demo_world wy) = Inr st'"
  "\<forall>wy. settles_all (nat 50) (demo_schedule wy)"
  by (simp_all add: demo_adapters_def demo_adapter_def demo_schedule_def settles_all_def)




lemma phase_run_intro:
  assumes "timed_phase fl A sched td 50 key u = Done u'"
      and "key \<in> set operations"
      and "\<And>wy. results final wy key = results u' wy key"
  shows "phase_run fl A sched td key u u' final"
proof -
  note c = timed_phase_closed[OF assms(1,2)]
  have "requested wy (since u u') = phase_plan td 50 key
        \<and> delivered wy (since u u') = phase_replies A sched td 50 key wy u
        \<and> length (phase_replies A sched td 50 key wy u) = length (phase_plan td 50 key)
        \<and> results final wy key =
            Some (summarize fl (map duration (filter success
                    (phase_replies A sched td 50 key wy u))))" for wy
    using c(1,2,3,5)[where wy=wy] assms(3)[of wy] by simp
  then show ?thesis
    unfolding phase_run_def using assms(1) by (simp add: list_all_iff)
qed

text \<open>
  Claim C2. Take a run whose adapters initialize and whose concurrent reads all settle,
  and let the adapters return what they will, failures included. The run returns, and it
  goes through the five timed phases in turn, each starting in the state that the one
  before has left. In each phase and on every variant, the calls made are those of the
  plan of the phase, once each and in order: no call is repeated and none is left out,
  whatever the results of the calls before it. The results are the replies of the adapter
  to these calls, one for each call, and the bundle that the run returns for the phase is
  computed from the durations of the successful replies alone. The log of the whole run
  holds, phase by phase, exactly the calls of the plans.
\<close>

theorem failed_calls_skipped_and_run_continues:
  assumes "\<forall>wy. \<exists>st'. initialize (A wy) (stores w wy) = Inr st'"
      and "\<forall>wy. settles_all (nat 50) (sched wy)"
  shows "\<exists>w1 w2 w3 w4 w5 w'.
           run fl A E sched w = Done w'
         \<and> phase_run fl A sched (run_test_data A E w) ''addMessage'' (run_start A E w) w1 w'
         \<and> phase_run fl A sched (run_test_data A E w) ''readMessages'' w1 w2 w'
         \<and> phase_run fl A sched (run_test_data A E w) ''editMessage'' w2 w3 w'
         \<and> phase_run fl A sched (run_test_data A E w) ''deleteMessage'' w3 w4 w'
         \<and> phase_run fl A sched (run_test_data A E w) ''concurrentReads'' w4 w5 w'
         \<and> (\<forall>wy. map (\<lambda>seg. requested wy (snd seg)) (segments (since w w')) =
                 [[], add_plan (run_test_data A E w), read_plan (run_test_data A E w),
                  edit_plan (run_test_data A E w), delete_plan (run_test_data A E w),
                  concurrent_plan (run_test_data A E w) 50, [], [], []])"
proof -
  let ?td = "run_test_data A E w"
  from run_closed[OF assms, where fl=fl and E=E] obtain w1 w2 w3 w4 w5 w' where
    rn: "run fl A E sched w = Done w'"
    and rs: "results w' = results w5"
    and p1: "timed_phase fl A sched ?td 50 ''addMessage'' (run_start A E w) = Done w1"
    and p2: "timed_phase fl A sched ?td 50 ''readMessages'' w1 = Done w2"
    and p3: "timed_phase fl A sched ?td 50 ''editMessage'' w2 = Done w3"
    and p4: "timed_phase fl A sched ?td 50 ''deleteMessage'' w3 = Done w4"
    and p5: "timed_phase fl A sched ?td 50 ''concurrentReads'' w4 = Done w5"
    by (elim exE conjE)
  have k: "''addMessage'' \<in> set operations" "''readMessages'' \<in> set operations"
    "''editMessage'' \<in> set operations" "''deleteMessage'' \<in> set operations"
    "''concurrentReads'' \<in> set operations"
    by (simp_all add: operations_def)
  note q2 = timed_phase_closed(4)[OF p2 k(2)]
  note q3 = timed_phase_closed(4)[OF p3 k(3)]
  note q4 = timed_phase_closed(4)[OF p4 k(4)]
  note q5 = timed_phase_closed(4)[OF p5 k(5)]
  have e5: "results w' wy ''concurrentReads'' = results w5 wy ''concurrentReads''" for wy
    by (simp add: rs)
  have e4: "results w' wy ''deleteMessage'' = results w4 wy ''deleteMessage''" for wy
    by (simp add: rs q5)
  have e3: "results w' wy ''editMessage'' = results w3 wy ''editMessage''" for wy
    by (simp add: rs q5 q4)
  have e2: "results w' wy ''readMessages'' = results w2 wy ''readMessages''" for wy
    by (simp add: rs q5 q4 q3)
  have e1: "results w' wy ''addMessage'' = results w1 wy ''addMessage''" for wy
    by (simp add: rs q5 q4 q3 q2)
  note r1 = phase_run_intro[OF p1 k(1) e1]
  note r2 = phase_run_intro[OF p2 k(2) e2]
  note r3 = phase_run_intro[OF p3 k(3) e3]
  note r4 = phase_run_intro[OF p4 k(4) e4]
  note r5 = phase_run_intro[OF p5 k(5) e5]
  from run_segments[OF assms, where fl=fl and E=E] rn have
    sg: "\<forall>wy. map (\<lambda>seg. requested wy (snd seg)) (segments (since w w')) =
                 [[], add_plan ?td, read_plan ?td, edit_plan ?td, delete_plan ?td,
                  concurrent_plan ?td 50, [], [], []]"
    by (elim exE conjE) simp
  show ?thesis
    by (intro exI conjI) (rule rn r1 r2 r3 r4 r5 sg)+
qed

lemma demo_edits_fail:
  "\<forall>req \<in> set plan. request_method req = ''editMessage'' \<Longrightarrow>
     filter success (replies demo_adapter plan st) = []"
proof (induction plan arbitrary: st)
  case Nil
  show ?case by simp
next
  case (Cons req plan)
  then have "request_method req = ''editMessage''" by simp
  then have "\<not> success (fst (invoke demo_adapter req st))"
    by (cases req) (simp_all add: demo_adapter_def)
  with Cons show ?case by simp
qed

theorem failed_calls_skipped_and_run_continues_witness:
  "\<exists>w'. run demo_fl demo_adapters demo_env demo_schedule demo_world = Done w'
       \<and> results w' Way1 ''editMessage''
           = Some \<lparr> average = NaN, min_s = PosInf, max_s = NegInf, total_s = Num 0, count = 0 \<rparr>
       \<and> map (\<lambda>seg. map request_method (requested Way1 (snd seg))) (segments (since demo_world w'))
           = [[], replicate 1000 ''addMessage'', replicate 10 ''getChatMessages'',
              replicate 100 ''editMessage'', replicate 50 ''deleteMessage'',
              replicate 50 ''getChatMessages'', [], [], []]"
proof -
  let ?td = "run_test_data demo_adapters demo_env demo_world"
  from failed_calls_skipped_and_run_continues[OF demo_run_hyps, where fl=demo_fl and E=demo_env]
  obtain w2 w3 w' where
    r: "run demo_fl demo_adapters demo_env demo_schedule demo_world = Done w'"
    and e: "phase_run demo_fl demo_adapters demo_schedule ?td ''editMessage'' w2 w3 w'"
    and q: "\<forall>wy. map (\<lambda>seg. requested wy (snd seg)) (segments (since demo_world w')) =
                 [[], add_plan ?td, read_plan ?td, edit_plan ?td, delete_plan ?td,
                  concurrent_plan ?td 50, [], [], []]"
    by (elim exE conjE)
  note pm = plan_methods[OF run_test_data_shape, where A1=demo_adapters and E1=demo_env
      and w1=demo_world]
  have "\<forall>req \<in> set (edit_plan ?td). request_method req = ''editMessage''"
  proof
    fix req assume "req \<in> set (edit_plan ?td)"
    then have "request_method req \<in> set (map request_method (edit_plan ?td))"
      by simp
    then show "request_method req = ''editMessage''"
      unfolding pm(3) by simp
  qed
  then have none: "filter success (phase_replies demo_adapters demo_schedule ?td 50
                     ''editMessage'' Way1 w2) = []"
    by (simp add: phase_replies_def phase_plan_simps demo_adapters_def demo_edits_fail)
  from e have "results w' Way1 ''editMessage'' =
                 Some (summarize demo_fl (map duration (filter success
                   (phase_replies demo_adapters demo_schedule ?td 50 ''editMessage'' Way1 w2))))"
    by (simp add: phase_run_def ways_def)
  then have b: "results w' Way1 ''editMessage''
           = Some \<lparr> average = NaN, min_s = PosInf, max_s = NegInf, total_s = Num 0, count = 0 \<rparr>"
    unfolding none by (simp add: summarize_Nil)
  from q have "map (\<lambda>seg. requested Way1 (snd seg)) (segments (since demo_world w')) =
                 [[], add_plan ?td, read_plan ?td, edit_plan ?td, delete_plan ?td,
                  concurrent_plan ?td 50, [], [], []]"
    by (rule spec)
  then have "map (map request_method) (map (\<lambda>seg. requested Way1 (snd seg))
                (segments (since demo_world w')))
           = [[], replicate 1000 ''addMessage'', replicate 10 ''getChatMessages'',
              replicate 100 ''editMessage'', replicate 50 ''deleteMessage'',
              replicate 50 ''getChatMessages'', [], [], []]"
    by (simp only: list.map pm)
  then have c: "map (\<lambda>seg. map request_method (requested Way1 (snd seg)))
                  (segments (since demo_world w'))
           = [[], replicate 1000 ''addMessage'', replicate 10 ''getChatMessages'',
              replicate 100 ''editMessage'', replicate 50 ''deleteMessage'',
              replicate 50 ''getChatMessages'', [], [], []]"
    by (simp only: map_map comp_def)
  show ?thesis
    by (intro exI[of _ w'] conjI) (rule r b c)+
qed

end
